theory Spec2Isabelle
  imports Complex_Main "HOL-Library.Word" "HOL-Library.Multiset"
begin

section \<open>The random source (\<^verbatim>\<open>Rand\<close> of xs.js)\<close>

text \<open>
  A seed is the array of numbers that \<^verbatim>\<open>pure-random\<close> works on. The library function
  \<^verbatim>\<open>pureRandom.randUint\<close> is not part of the repository: it is a parameter \<open>randUint\<close> of
  every definition that draws a number, a pure function from a seed to an unsigned 32-bit
  integer. JavaScript's double arithmetic in \<^verbatim>\<open>Rand._random\<close> is written with exact
  rationals; \<^verbatim>\<open>Math.round\<close> rounds half up. Both results lie between \<open>min\<close> and
  \<open>max\<close>; the rounded double can differ by one from the exact value where the range is
  of the order of a million or more, far above the length of a deck.
\<close>


type_synonym seed = "nat list"

definition UINT32_MAX :: int where
  "UINT32_MAX = 2 ^ 32 - 1"

definition Math_round :: "rat \<Rightarrow> int" where
  "Math_round x = \<lfloor>x + 1 / 2\<rfloor>"

definition Rand_nextSeed :: "(seed \<Rightarrow> 32 word) \<Rightarrow> seed \<Rightarrow> seed" where
  "Rand_nextSeed randUint seed = take 3 (drop 1 seed) @ [unat (randUint seed)]"

definition Rand_random' :: "(seed \<Rightarrow> 32 word) \<Rightarrow> seed \<Rightarrow> int \<Rightarrow> int \<Rightarrow> int" where
  "Rand_random' randUint seed lo hi =
     Math_round (of_int lo + of_int (uint (randUint seed)) / of_int UINT32_MAX * of_int (hi - lo))"

definition Rand_random :: "(seed \<Rightarrow> 32 word) \<Rightarrow> int \<Rightarrow> int \<Rightarrow> seed \<Rightarrow> int \<times> seed" where
  "Rand_random randUint lo hi seed = (Rand_random' randUint seed lo hi, Rand_nextSeed randUint seed)"

definition remove :: "nat \<Rightarrow> 'a list \<Rightarrow> 'a list" where
  "remove i xs = take i xs @ drop (Suc i) xs"

lemma Rand_random'_range:
  assumes "lo \<le> hi"
  shows "lo \<le> Rand_random' ru seed lo hi \<and> Rand_random' ru seed lo hi \<le> hi"
proof -
  define u :: rat where "u = of_int (uint (ru seed)) / of_int UINT32_MAX"
  define d :: rat where "d = of_int (hi - lo)"
  have u0: "0 \<le> u" unfolding u_def UINT32_MAX_def
    by (intro divide_nonneg_nonneg) (simp_all only: of_int_0_le_iff uint_ge_0, simp)
  have "uint (ru seed) < 2 ^ 32" using uint_bounded [of "ru seed"] by simp
  hence "uint (ru seed) \<le> UINT32_MAX" unfolding UINT32_MAX_def by simp
  hence "(of_int (uint (ru seed)) :: rat) \<le> of_int UINT32_MAX" by (simp only: of_int_le_iff)
  moreover have "(0::rat) < of_int UINT32_MAX" unfolding UINT32_MAX_def by simp
  ultimately have u1: "u \<le> 1" unfolding u_def by (simp add: divide_le_eq_1)
  have d0: "0 \<le> d" unfolding d_def using assms by simp
  have a: "0 \<le> u * d" using u0 d0 by simp
  have b: "u * d \<le> d" using mult_right_mono [OF u1 d0] by simp
  have r: "Rand_random' ru seed lo hi = \<lfloor>of_int lo + u * d + 1 / 2\<rfloor>"
    unfolding Rand_random'_def Math_round_def u_def d_def by simp
  have "of_int lo \<le> of_int lo + u * d + 1 / 2" using a by simp
  hence l: "lo \<le> \<lfloor>of_int lo + u * d + 1 / 2\<rfloor>" by (simp add: le_floor_iff)
  have "of_int lo + u * d + 1 / 2 < of_int (hi + 1)" using b unfolding d_def by simp
  hence "\<lfloor>of_int lo + u * d + 1 / 2\<rfloor> < hi + 1" by (simp only: floor_less_iff)
  with l r show ?thesis by simp
qed

function shuffle :: "(seed \<Rightarrow> 32 word) \<Rightarrow> 'a list \<Rightarrow> seed \<Rightarrow> 'a list \<times> seed" where
  "shuffle ru xs seed =
     (if length xs \<le> 1 then (xs, seed)
      else (case Rand_random ru 0 (int (length xs) - 1) seed of (i, seed1) \<Rightarrow>
              (case shuffle ru (remove (nat i) xs) seed1 of (tail, seed2) \<Rightarrow>
                 (xs ! nat i # tail, seed2))))"
  by pat_completeness auto
termination
proof (relation "measure (\<lambda>(ru, xs, seed). length xs)", goal_cases)
  case 1 show ?case by simp
next
  case (2 ru xs seed i seed1)
  have "0 \<le> Rand_random' ru seed 0 (int (length xs) - 1) \<and> Rand_random' ru seed 0 (int (length xs) - 1) \<le> int (length xs) - 1"
    using 2(1) by (intro Rand_random'_range) (cases xs, simp_all)
  with 2 show ?case by (auto simp: Rand_random_def remove_def)
qed

declare shuffle.simps [simp del]

section \<open>Data model\<close>

text \<open>
  An influence card is the object \<^verbatim>\<open>{role, revealed}\<close>, a player the object
  \<^verbatim>\<open>{cash, influence}\<close>. Player indices coming from an event are JavaScript numbers and are
  checked by the guards before use: they are integers here, and an absent or non-numeric
  field is \<open>None\<close>.
\<close>

record card =
  role :: string
  revealed :: bool

record player =
  cash :: int
  influence :: "card list"

record GameDef =
  roles :: "string list"

record Context =
  whoseTurn :: nat
  players :: "player list"
  deck :: "string list"
  seed :: seed
  gdef :: GameDef
  currentAction :: "string option"
  target :: "int option"
  blocker :: "int option"
  challenger :: "int option"
  revealer :: "int option"
  revealedRole :: "string option"

datatype etype = ACTION | BLOCK | CHALLENGE | ALLOW | REVEAL | NULL_EVENT | OTHER

record event =
  ev_type :: etype
  ev_player :: "int option"
  ev_action :: "string option"
  ev_target :: "int option"
  ev_role :: "string option"

text \<open>The event xstate passes to guards and actions of an eventless (\<^verbatim>\<open>always\<close>) transition.\<close>

definition nullEvent :: event where
  "nullEvent = \<lparr>ev_type = NULL_EVENT, ev_player = None, ev_action = None,
     ev_target = None, ev_role = None\<rparr>"

text \<open>
  What a guard or an action throws. The first ten are the messages of the guards, in the
  order of the source; \<open>PlayerDoesNotHaveRole\<close> is raised by the player functions;
  \<open>TypeError\<close> is JavaScript's own error on reading a property of \<^verbatim>\<open>undefined\<close>;
  \<open>EmptyDeck\<close> stands for a pop from an empty deck.
\<close>

datatype reason =
    MustSpecifyValidPlayer etype
  | MustSpecifyValidAction etype
  | NotAllowedFromPlayer etype int
  | MustTargetValidPlayer etype
  | CannotTargetPlayer etype int
  | CannotAffordAction int string
  | MustSpecifyValidRole etype
  | MustSpecifyHeldRole etype
  | ActionCannotBeChallenged "string option"
  | ActionCannotBeBlockedBy "string option" string
  | PlayerDoesNotHaveRole "string option"
  | TypeError
  | EmptyDeck

subsection \<open>Player\<close>

fun findIndex :: "('a \<Rightarrow> bool) \<Rightarrow> 'a list \<Rightarrow> nat option" where
  "findIndex P [] = None"
| "findIndex P (x # xs) =
     (if P x then Some 0 else (case findIndex P xs of None \<Rightarrow> None | Some i \<Rightarrow> Some (Suc i)))"

definition Player_countInf :: "player \<Rightarrow> nat" where
  "Player_countInf p = length (filter (\<lambda>c. \<not> revealed c) (influence p))"

definition Player_hasNInf :: "nat \<Rightarrow> player \<Rightarrow> bool" where
  "Player_hasNInf n p = (Player_countInf p = n)"

definition Player_isDead :: "player \<Rightarrow> bool" where
  "Player_isDead p = Player_hasNInf 0 p"

definition Player_adjustCash :: "int \<Rightarrow> player \<Rightarrow> player" where
  "Player_adjustCash dcash p = p\<lparr>cash := cash p + dcash\<rparr>"

definition Player_kill :: "player \<Rightarrow> player" where
  "Player_kill p = p\<lparr>influence := map (\<lambda>c. c\<lparr>revealed := True\<rparr>) (influence p)\<rparr>"

definition Player_revealRole :: "string \<Rightarrow> player \<Rightarrow> reason + player" where
  "Player_revealRole r p =
     (case findIndex (\<lambda>c. c = \<lparr>role = r, revealed = False\<rparr>) (influence p) of
        None \<Rightarrow> Inl (PlayerDoesNotHaveRole (Some r))
      | Some idx \<Rightarrow>
          Inr (p\<lparr>influence := (influence p)[idx := (influence p ! idx)\<lparr>revealed := True\<rparr>]\<rparr>))"

definition Player_unrevealRole :: "string \<Rightarrow> player \<Rightarrow> reason + player" where
  "Player_unrevealRole r p =
     (case findIndex (\<lambda>c. c = \<lparr>role = r, revealed = True\<rparr>) (influence p) of
        None \<Rightarrow> Inl (PlayerDoesNotHaveRole (Some r))
      | Some idx \<Rightarrow>
          Inr (p\<lparr>influence := (influence p)[idx := (influence p ! idx)\<lparr>revealed := False\<rparr>]\<rparr>))"

definition Player_getFirstRole :: "player \<Rightarrow> string option" where
  "Player_getFirstRole p =
     (case List.find (\<lambda>c. \<not> revealed c) (influence p) of
        None \<Rightarrow> None
      | Some c \<Rightarrow> Some (role c))"

definition Player_swapRole :: "string \<Rightarrow> string \<Rightarrow> player \<Rightarrow> reason + player" where
  "Player_swapRole oldRole newRole p =
     (case findIndex (\<lambda>c. c = \<lparr>role = oldRole, revealed = False\<rparr>) (influence p) of
        None \<Rightarrow> Inl (PlayerDoesNotHaveRole (Some oldRole))
      | Some idx \<Rightarrow>
          Inr (p\<lparr>influence := (influence p)[idx := (influence p ! idx)\<lparr>role := newRole\<rparr>]\<rparr>))"

text \<open>
  \<^verbatim>\<open>R.view(Player.lens(idx), context)\<close> is \<^verbatim>\<open>context.players[idx]\<close>: \<^verbatim>\<open>undefined\<close>
  (\<open>None\<close>) when the index is \<^verbatim>\<open>null\<close> or outside the array.
\<close>

definition viewPlayer :: "int option \<Rightarrow> Context \<Rightarrow> player option" where
  "viewPlayer idx c =
     (case idx of
        None \<Rightarrow> None
      | Some i \<Rightarrow> if 0 \<le> i \<and> i < int (length (players c)) then Some (players c ! nat i) else None)"

subsection \<open>GameDef\<close>

text \<open>
  The rulebook table \<^verbatim>\<open>this.actions\<close>, in the order of the source. \<^verbatim>\<open>roles\<close> and
  \<^verbatim>\<open>blockedBy\<close> are stored as \<^verbatim>\<open>R.flatten([x || []])\<close> reads them: a single string is a
  one-element list, an absent entry the empty list.
\<close>

record action_def =
  act_cost :: "int option"
  act_gain :: "int option"
  act_roles :: "string list"
  act_blockedBy :: "string list"
  act_targeted :: bool

definition no_metadata :: action_def where
  "no_metadata = \<lparr>act_cost = None, act_gain = None, act_roles = [], act_blockedBy = [],
     act_targeted = False\<rparr>"

definition GameDef_actions :: "(string \<times> action_def) list" where
  "GameDef_actions =
    [(''coup'', no_metadata\<lparr>act_cost := Some 7, act_targeted := True\<rparr>),
     (''income'', no_metadata\<lparr>act_gain := Some 1\<rparr>),
     (''foreign-aid'', no_metadata\<lparr>act_gain := Some 2, act_blockedBy := [''duke'']\<rparr>),
     (''tax'', no_metadata\<lparr>act_gain := Some 3, act_roles := [''duke'']\<rparr>),
     (''assassinate'', no_metadata\<lparr>act_cost := Some 3, act_roles := [''assassin''],
        act_targeted := True, act_blockedBy := [''contessa'']\<rparr>),
     (''steal'', no_metadata\<lparr>act_roles := [''captain''], act_targeted := True,
        act_blockedBy := [''captain'', ''ambassador'', ''inquisitor'']\<rparr>),
     (''exchange'', no_metadata\<lparr>act_roles := [''ambassador'', ''inquisitor'']\<rparr>),
     (''interrogate'', no_metadata\<lparr>act_roles := [''inquisitor''], act_targeted := True\<rparr>)]"

text \<open>
  \<^verbatim>\<open>this.actions\<close> is a plain object, so \<^verbatim>\<open>action in this.actions\<close> and
  \<^verbatim>\<open>this.actions[action]\<close> also find the properties inherited from \<^verbatim>\<open>Object.prototype\<close>;
  none of those has a \<^verbatim>\<open>cost\<close>, \<^verbatim>\<open>roles\<close>, \<^verbatim>\<open>blockedBy\<close> or \<^verbatim>\<open>targeted\<close>.
\<close>

definition Object_prototype_keys :: "string list" where
  "Object_prototype_keys =
    [''constructor'', ''__defineGetter__'', ''__defineSetter__'', ''hasOwnProperty'',
     ''__lookupGetter__'', ''__lookupSetter__'', ''isPrototypeOf'', ''propertyIsEnumerable'',
     ''toString'', ''valueOf'', ''__proto__'', ''toLocaleString'']"

text \<open>\<^verbatim>\<open>this.actions[action]\<close>; \<open>None\<close> is \<^verbatim>\<open>undefined\<close>, also for the action \<^verbatim>\<open>null\<close>.\<close>

definition lookupAction :: "string option \<Rightarrow> action_def option" where
  "lookupAction action =
     (case action of
        None \<Rightarrow> None
      | Some a \<Rightarrow>
          (case map_of GameDef_actions a of
             Some d \<Rightarrow> Some d
           | None \<Rightarrow> if a \<in> set Object_prototype_keys then Some no_metadata else None))"

definition isValidRole :: "GameDef \<Rightarrow> string \<Rightarrow> bool" where
  "isValidRole d r = (r \<in> set (roles d))"

definition isValidAction :: "string \<Rightarrow> bool" where
  "isValidAction a = (a \<in> set (map fst GameDef_actions) \<or> a \<in> set Object_prototype_keys)"

definition getRequiredRoles :: "string option \<Rightarrow> reason + string list" where
  "getRequiredRoles action =
     (case lookupAction action of None \<Rightarrow> Inl TypeError | Some d \<Rightarrow> Inr (act_roles d))"

definition getBlockingRoles :: "string option \<Rightarrow> reason + string list" where
  "getBlockingRoles action =
     (case lookupAction action of None \<Rightarrow> Inl TypeError | Some d \<Rightarrow> Inr (act_blockedBy d))"

definition isRoleRequired :: "string option \<Rightarrow> reason + bool" where
  "isRoleRequired action =
     (case getRequiredRoles action of Inl e \<Rightarrow> Inl e | Inr rs \<Rightarrow> Inr (length rs > 0))"

definition isBlockable :: "string option \<Rightarrow> reason + bool" where
  "isBlockable action =
     (case getBlockingRoles action of Inl e \<Rightarrow> Inl e | Inr rs \<Rightarrow> Inr (length rs > 0))"

text \<open>The role is \<open>None\<close> when the caller passes \<^verbatim>\<open>null\<close>, which no list of roles includes.\<close>

definition isBlockedBy :: "string option \<Rightarrow> string option \<Rightarrow> reason + bool" where
  "isBlockedBy action r =
     (case getBlockingRoles action of
        Inl e \<Rightarrow> Inl e
      | Inr rs \<Rightarrow> Inr (case r of None \<Rightarrow> False | Some x \<Rightarrow> x \<in> set rs))"

definition ifRoleAllowsAction :: "string option \<Rightarrow> string option \<Rightarrow> reason + bool" where
  "ifRoleAllowsAction r action =
     (case getRequiredRoles action of
        Inl e \<Rightarrow> Inl e
      | Inr rs \<Rightarrow> Inr (case r of None \<Rightarrow> False | Some x \<Rightarrow> x \<in> set rs))"

definition isTargeted :: "string option \<Rightarrow> reason + bool" where
  "isTargeted action =
     (case lookupAction action of None \<Rightarrow> Inl TypeError | Some d \<Rightarrow> Inr (act_targeted d))"

definition getCost :: "string option \<Rightarrow> reason + int" where
  "getCost action =
     (case lookupAction action of
        None \<Rightarrow> Inl TypeError
      | Some d \<Rightarrow> Inr (case act_cost d of None \<Rightarrow> 0 | Some n \<Rightarrow> n))"

definition makeDeck :: "GameDef \<Rightarrow> string list" where
  "makeDeck d = concat (map (\<lambda>el. replicate 3 el) (roles d))"

subsection \<open>Game\<close>

definition Game_isOver :: "Context \<Rightarrow> bool" where
  "Game_isOver c = (length (filter (\<lambda>p. \<not> Player_isDead p) (players c)) = 1)"

definition Game_pushDeck :: "string \<Rightarrow> Context \<Rightarrow> Context" where
  "Game_pushDeck r c = c\<lparr>deck := r # deck c\<rparr>"

definition Game_popDeck :: "Context \<Rightarrow> string option \<times> Context" where
  "Game_popDeck c =
     (case deck c of [] \<Rightarrow> (None, c) | r # rest \<Rightarrow> (Some r, c\<lparr>deck := rest\<rparr>))"

definition Game_shuffleDeck :: "(seed \<Rightarrow> 32 word) \<Rightarrow> Context \<Rightarrow> Context" where
  "Game_shuffleDeck ru c =
     (case shuffle ru (deck c) (seed c) of (d, s) \<Rightarrow> c\<lparr>seed := s, deck := d\<rparr>)"

definition Game_applyRevealAction :: "Context \<Rightarrow> Context" where
  "Game_applyRevealAction c = c\<lparr>revealer := target c\<rparr>"

definition Game_playerCanAffordAction :: "int option \<Rightarrow> string option \<Rightarrow> Context \<Rightarrow> reason + bool" where
  "Game_playerCanAffordAction idx action c =
     (case getCost action of
        Inl e \<Rightarrow> Inl e
      | Inr n \<Rightarrow> (case viewPlayer idx c of None \<Rightarrow> Inl TypeError | Some p \<Rightarrow> Inr (n \<le> cash p)))"

definition Game_playerHasNInf :: "int option \<Rightarrow> nat \<Rightarrow> Context \<Rightarrow> reason + bool" where
  "Game_playerHasNInf idx n c =
     (case viewPlayer idx c of None \<Rightarrow> Inl TypeError | Some p \<Rightarrow> Inr (Player_hasNInf n p))"

definition Game_playerHasRole :: "int option \<Rightarrow> string \<Rightarrow> Context \<Rightarrow> reason + bool" where
  "Game_playerHasRole idx r c =
     (case viewPlayer idx c of
        None \<Rightarrow> Inl TypeError
      | Some p \<Rightarrow> Inr (list_ex (\<lambda>x. revealed x = False \<and> role x = r) (influence p)))"

text \<open>
  \<^verbatim>\<open>R.over(activePlayerLens, f)\<close>: \<^verbatim>\<open>R.update\<close> leaves the array as it is when
  \<^verbatim>\<open>whoseTurn\<close> is outside it, as the list update of HOL does.
\<close>

definition overActivePlayer :: "(player \<Rightarrow> player) \<Rightarrow> Context \<Rightarrow> Context" where
  "overActivePlayer f c = c\<lparr>players := (players c)[whoseTurn c := f (players c ! whoseTurn c)]\<rparr>"

text \<open>\<^verbatim>\<open>R.cond\<close> returns \<^verbatim>\<open>undefined\<close> (\<open>None\<close>) when no branch matches.\<close>

definition Game_applyAction :: "Context \<Rightarrow> Context option" where
  "Game_applyAction c =
     (if currentAction c = Some ''income'' then Some (overActivePlayer (Player_adjustCash 1) c)
      else if currentAction c = Some ''foreign-aid'' then Some (overActivePlayer (Player_adjustCash 2) c)
      else if currentAction c = Some ''tax'' then Some (overActivePlayer (Player_adjustCash 3) c)
      else if currentAction c = Some ''assassinate'' then Some (Game_applyRevealAction c)
      else None)"

text \<open>
  \<^verbatim>\<open>R.over(Player.lens(idx), f)\<close> and \<^verbatim>\<open>liftPlayer(idx, m)\<close> for an \<open>f\<close> that reads
  \<^verbatim>\<open>player.influence\<close>: a \<^verbatim>\<open>TypeError\<close> when \<^verbatim>\<open>context.players[idx]\<close> is \<^verbatim>\<open>undefined\<close>.
\<close>

definition overPlayer :: "int option \<Rightarrow> (player \<Rightarrow> reason + player) \<Rightarrow> Context \<Rightarrow> reason + Context" where
  "overPlayer idx f c =
     (case idx of
        None \<Rightarrow> Inl TypeError
      | Some i \<Rightarrow>
          if 0 \<le> i \<and> i < int (length (players c))
          then (case f (players c ! nat i) of
                  Inl e \<Rightarrow> Inl e
                | Inr p' \<Rightarrow> Inr (c\<lparr>players := (players c)[nat i := p']\<rparr>))
          else Inl TypeError)"

definition redealPlayerRole :: "(seed \<Rightarrow> 32 word) \<Rightarrow> int option \<Rightarrow> string \<Rightarrow> Context \<Rightarrow> reason + Context" where
  "redealPlayerRole ru idx oldRole c =
     (case Game_popDeck (Game_shuffleDeck ru (Game_pushDeck oldRole c)) of
        (None, c3) \<Rightarrow> Inl EmptyDeck
      | (Some newRole, c3) \<Rightarrow> overPlayer idx (Player_swapRole oldRole newRole) c3)"

subsection \<open>Guards\<close>

text \<open>
  The \<^verbatim>\<open>assert...\<close> guards return \<^verbatim>\<open>true\<close> or throw; the \<^verbatim>\<open>if...\<close> guards return a
  boolean, and throw only JavaScript's own \<^verbatim>\<open>TypeError\<close>.
\<close>

definition isValidPlayerIdx :: "Context \<Rightarrow> int option \<Rightarrow> bool" where
  "isValidPlayerIdx c idx =
     (case idx of None \<Rightarrow> False | Some i \<Rightarrow> 0 \<le> i \<and> i < int (length (players c)))"

definition assertValidPlayer :: "Context \<Rightarrow> event \<Rightarrow> reason + bool" where
  "assertValidPlayer c e =
     (if \<not> isValidPlayerIdx c (ev_player e) then Inl (MustSpecifyValidPlayer (ev_type e))
      else Inr True)"

definition assertCanStartAction :: "Context \<Rightarrow> event \<Rightarrow> reason + bool" where
  "assertCanStartAction c e =
     (case assertValidPlayer c e of
        Inl r \<Rightarrow> Inl r
      | Inr _ \<Rightarrow>
         (case ev_action e of
            None \<Rightarrow> Inl (MustSpecifyValidAction (ev_type e))
          | Some a \<Rightarrow>
              if \<not> isValidAction a then Inl (MustSpecifyValidAction (ev_type e))
              else if ev_player e \<noteq> Some (int (whoseTurn c))
              then Inl (NotAllowedFromPlayer (ev_type e) (case ev_player e of Some i \<Rightarrow> i | None \<Rightarrow> 0))
              else
                (case isTargeted (Some a) of
                   Inl r \<Rightarrow> Inl r
                 | Inr t \<Rightarrow>
                     if t \<and> \<not> isValidPlayerIdx c (ev_target e)
                     then Inl (MustTargetValidPlayer (ev_type e))
                     else if t \<and> ev_target e = Some (int (whoseTurn c))
                     then Inl (CannotTargetPlayer (ev_type e) (int (whoseTurn c)))
                     else
                       (case Game_playerCanAffordAction (ev_player e) (Some a) c of
                          Inl r \<Rightarrow> Inl r
                        | Inr ok \<Rightarrow>
                            if \<not> ok then Inl (CannotAffordAction (int (whoseTurn c)) a)
                            else Inr True))))"

definition assertCanReveal :: "Context \<Rightarrow> event \<Rightarrow> reason + bool" where
  "assertCanReveal c e =
     (case assertValidPlayer c e of
        Inl r \<Rightarrow> Inl r
      | Inr _ \<Rightarrow>
          if ev_player e \<noteq> revealer c
          then Inl (NotAllowedFromPlayer (ev_type e) (case ev_player e of Some i \<Rightarrow> i | None \<Rightarrow> 0))
          else
            (case ev_role e of
               None \<Rightarrow> Inl (MustSpecifyValidRole (ev_type e))
             | Some r \<Rightarrow>
                 if \<not> isValidRole (gdef c) r then Inl (MustSpecifyValidRole (ev_type e))
                 else
                   (case Game_playerHasRole (ev_player e) r c of
                      Inl x \<Rightarrow> Inl x
                    | Inr has \<Rightarrow>
                        if \<not> has then Inl (MustSpecifyHeldRole (ev_type e)) else Inr True)))"

definition assertValidOpponent :: "Context \<Rightarrow> event \<Rightarrow> reason + bool" where
  "assertValidOpponent c e =
     (case assertValidPlayer c e of
        Inl r \<Rightarrow> Inl r
      | Inr _ \<Rightarrow>
          if ev_player e = Some (int (whoseTurn c))
          then Inl (NotAllowedFromPlayer (ev_type e) (int (whoseTurn c)))
          else Inr True)"

definition assertCurrentPlayer :: "Context \<Rightarrow> event \<Rightarrow> reason + bool" where
  "assertCurrentPlayer c e =
     (case assertValidPlayer c e of
        Inl r \<Rightarrow> Inl r
      | Inr _ \<Rightarrow>
          if ev_player e \<noteq> Some (int (whoseTurn c))
          then Inl (NotAllowedFromPlayer (ev_type e) (case ev_player e of Some i \<Rightarrow> i | None \<Rightarrow> 0))
          else Inr True)"

definition ifActionWasBlocked :: "Context \<Rightarrow> bool" where
  "ifActionWasBlocked c = (blocker c \<noteq> None)"

definition assertCanChallenge :: "Context \<Rightarrow> event \<Rightarrow> reason + bool" where
  "assertCanChallenge c e =
     (if ifActionWasBlocked c then
        (case assertValidPlayer c e of
           Inl r \<Rightarrow> Inl r
         | Inr _ \<Rightarrow>
             if ev_player e = blocker c
             then Inl (NotAllowedFromPlayer (ev_type e) (case ev_player e of Some i \<Rightarrow> i | None \<Rightarrow> 0))
             else Inr True)
      else
        (case assertValidOpponent c e of
           Inl r \<Rightarrow> Inl r
         | Inr _ \<Rightarrow>
             (case isRoleRequired (currentAction c) of
                Inl r \<Rightarrow> Inl r
              | Inr req \<Rightarrow>
                  if \<not> req then Inl (ActionCannotBeChallenged (currentAction c)) else Inr True)))"

definition assertCanBlock :: "Context \<Rightarrow> event \<Rightarrow> reason + bool" where
  "assertCanBlock c e =
     (case assertValidOpponent c e of
        Inl r \<Rightarrow> Inl r
      | Inr _ \<Rightarrow>
          (case ev_role e of
             None \<Rightarrow> Inl (MustSpecifyValidRole (ev_type e))
           | Some r \<Rightarrow>
               (case isBlockedBy (currentAction c) (Some r) of
                  Inl x \<Rightarrow> Inl x
                | Inr b \<Rightarrow>
                    if \<not> b then Inl (ActionCannotBeBlockedBy (currentAction c) r) else Inr True)))"

definition ifActionHasResponse :: "Context \<Rightarrow> reason + bool" where
  "ifActionHasResponse c =
     (case isRoleRequired (currentAction c) of
        Inl r \<Rightarrow> Inl r
      | Inr req \<Rightarrow> if req then Inr True else isBlockable (currentAction c))"

definition ifActionHasNoResponse :: "Context \<Rightarrow> reason + bool" where
  "ifActionHasNoResponse c =
     (case ifActionHasResponse c of Inl r \<Rightarrow> Inl r | Inr b \<Rightarrow> Inr (\<not> b))"

definition ifChallengeIncorrect :: "Context \<Rightarrow> reason + bool" where
  "ifChallengeIncorrect c =
     (if blocker c \<noteq> None then isBlockedBy (currentAction c) (revealedRole c)
      else ifRoleAllowsAction (revealedRole c) (currentAction c))"

definition ifPendingReveal :: "Context \<Rightarrow> bool" where
  "ifPendingReveal c = (revealer c \<noteq> None \<and> revealedRole c = None)"

definition ifBlockableAction :: "Context \<Rightarrow> reason + bool" where
  "ifBlockableAction c = isBlockable (currentAction c)"

definition ifAutoReveal :: "Context \<Rightarrow> reason + bool" where
  "ifAutoReveal c = Game_playerHasNInf (revealer c) 1 c"

subsection \<open>Actions\<close>

text \<open>
  Every action of the machine is an xstate \<^verbatim>\<open>assign\<close>: a function from the Context and the
  event to the next context. An exception thrown by the assigner leaves \<^verbatim>\<open>transition\<close>.
\<close>

definition setCurrentAction :: "Context \<Rightarrow> event \<Rightarrow> Context" where
  "setCurrentAction c e = c\<lparr>currentAction := ev_action e, target := ev_target e\<rparr>"

definition setChallenger :: "Context \<Rightarrow> event \<Rightarrow> Context" where
  "setChallenger c e = c\<lparr>challenger := ev_player e\<rparr>"

definition setBlocker :: "Context \<Rightarrow> event \<Rightarrow> Context" where
  "setBlocker c e = c\<lparr>blocker := ev_player e\<rparr>"

definition setRevealer :: "(Context \<Rightarrow> int option) \<Rightarrow> Context \<Rightarrow> Context" where
  "setRevealer valueGetter c = c\<lparr>revealer := valueGetter c, revealedRole := None\<rparr>"

definition clearRevealer :: "Context \<Rightarrow> Context" where
  "clearRevealer c = c\<lparr>revealer := None, revealedRole := None\<rparr>"

text \<open>
  For an empty \<^verbatim>\<open>players\<close> array JavaScript's \<^verbatim>\<open>%\<close> gives \<^verbatim>\<open>NaN\<close>, which the index type
  here does not hold; no guard accepts an event in such a game.
\<close>

definition advanceTurn :: "Context \<Rightarrow> Context" where
  "advanceTurn c = c\<lparr>whoseTurn := (whoseTurn c + 1) mod length (players c)\<rparr>"

text \<open>
  \<^verbatim>\<open>assign(Game.applyAction)\<close>: xstate merges what the assigner returns into the context
  with \<^verbatim>\<open>Object.assign({}, context, update)\<close>, and merging \<^verbatim>\<open>undefined\<close> changes nothing.
\<close>

definition applyAction :: "Context \<Rightarrow> Context" where
  "applyAction c = (case Game_applyAction c of None \<Rightarrow> c | Some c' \<Rightarrow> c')"

text \<open>
  \<^verbatim>\<open>event.role || getFirstRole(...)\<close>: the event's role unless it is absent or the empty
  string. A role that is \<^verbatim>\<open>undefined\<close> matches no card, so \<^verbatim>\<open>revealRole\<close> raises.
\<close>

definition revealInfluence :: "Context \<Rightarrow> event \<Rightarrow> reason + Context" where
  "revealInfluence c e =
     (case viewPlayer (revealer c) c of
        None \<Rightarrow> Inl TypeError
      | Some p \<Rightarrow>
          (case (case ev_role e of
                   None \<Rightarrow> Player_getFirstRole p
                 | Some r \<Rightarrow> if r \<noteq> [] then Some r else Player_getFirstRole p) of
             None \<Rightarrow> Inl (PlayerDoesNotHaveRole None)
           | Some r \<Rightarrow>
               (case overPlayer (revealer c) (Player_revealRole r) c of
                  Inl x \<Rightarrow> Inl x
                | Inr c' \<Rightarrow> Inr (c'\<lparr>revealedRole := Some r\<rparr>))))"

definition replaceInfluence :: "(seed \<Rightarrow> 32 word) \<Rightarrow> Context \<Rightarrow> reason + Context" where
  "replaceInfluence ru c =
     (case viewPlayer (revealer c) c of
        None \<Rightarrow> Inl TypeError
      | Some p \<Rightarrow>
          (case revealedRole c of
             None \<Rightarrow> Inl (PlayerDoesNotHaveRole None)
           | Some r \<Rightarrow>
               (case overPlayer (revealer c) (Player_unrevealRole r) c of
                  Inl x \<Rightarrow> Inl x
                | Inr c' \<Rightarrow> redealPlayerRole ru (revealer c) r c')))"

definition payActionCost :: "Context \<Rightarrow> reason + Context" where
  "payActionCost c =
     (case getCost (currentAction c) of
        Inl x \<Rightarrow> Inl x
      | Inr n \<Rightarrow> Inr (overActivePlayer (Player_adjustCash (- n)) c))"

definition resetContext :: "Context \<Rightarrow> Context" where
  "resetContext c = c\<lparr>currentAction := None, target := None, blocker := None,
     challenger := None, revealer := None, revealedRole := None\<rparr>"

section \<open>The state machine (\<^verbatim>\<open>GameMachine\<close>)\<close>

text \<open>
  The machine is the configuration object handed to xstate's \<^verbatim>\<open>Machine\<close>: per state its
  \<^verbatim>\<open>entry\<close> actions, its \<^verbatim>\<open>always\<close> transitions in listed order and its \<^verbatim>\<open>on\<close> table.
  Guards and actions are named by the constructors below and interpreted by
  \<open>evalGuard\<close> and \<open>execAct\<close>.
\<close>

datatype state_name =
    StartOfTurn | WaitForResponse | Block | Challenge | ExecRevealOnChallenge
  | ChallengeIncorrect | ExecCounterReveal | WaitForBlock | FinishAction | RevealOnAction
  | EndOfTurn | GameOver

datatype guard =
    AssertCanStartAction | AssertCanBlock | AssertCanChallenge | AssertValidOpponent
  | AssertCurrentPlayer | AssertCanReveal | IfActionHasNoResponse | IfAutoReveal
  | IfChallengeIncorrect | IfActionWasBlocked | IfBlockableAction | IfPendingReveal
  | GameIsOver | Unguarded

datatype act =
    ResetContext | SetCurrentAction | PayActionCost | SetBlocker | SetChallenger
  | SetRevealerClaimant | SetRevealerChallenger | ClearRevealer | ApplyAction
  | RevealInfluence | ReplaceInfluence | AdvanceTurn

fun evalGuard :: "guard \<Rightarrow> Context \<Rightarrow> event \<Rightarrow> reason + bool" where
  "evalGuard AssertCanStartAction c e = assertCanStartAction c e"
| "evalGuard AssertCanBlock c e = assertCanBlock c e"
| "evalGuard AssertCanChallenge c e = assertCanChallenge c e"
| "evalGuard AssertValidOpponent c e = assertValidOpponent c e"
| "evalGuard AssertCurrentPlayer c e = assertCurrentPlayer c e"
| "evalGuard AssertCanReveal c e = assertCanReveal c e"
| "evalGuard IfActionHasNoResponse c e = ifActionHasNoResponse c"
| "evalGuard IfAutoReveal c e = ifAutoReveal c"
| "evalGuard IfChallengeIncorrect c e = ifChallengeIncorrect c"
| "evalGuard IfActionWasBlocked c e = Inr (ifActionWasBlocked c)"
| "evalGuard IfBlockableAction c e = ifBlockableAction c"
| "evalGuard IfPendingReveal c e = Inr (ifPendingReveal c)"
| "evalGuard GameIsOver c e = Inr (Game_isOver c)"
| "evalGuard Unguarded c e = Inr True"

fun execAct :: "(seed \<Rightarrow> 32 word) \<Rightarrow> act \<Rightarrow> Context \<Rightarrow> event \<Rightarrow> reason + Context" where
  "execAct ru ResetContext c e = Inr (resetContext c)"
| "execAct ru SetCurrentAction c e = Inr (setCurrentAction c e)"
| "execAct ru PayActionCost c e = payActionCost c"
| "execAct ru SetBlocker c e = Inr (setBlocker c e)"
| "execAct ru SetChallenger c e = Inr (setChallenger c e)"
| "execAct ru SetRevealerClaimant c e =
     Inr (setRevealer (\<lambda>x. if ifActionWasBlocked x then blocker x else Some (int (whoseTurn x))) c)"
| "execAct ru SetRevealerChallenger c e = Inr (setRevealer challenger c)"
| "execAct ru ClearRevealer c e = Inr (clearRevealer c)"
| "execAct ru ApplyAction c e = Inr (applyAction c)"
| "execAct ru RevealInfluence c e = revealInfluence c e"
| "execAct ru ReplaceInfluence c e = replaceInfluence ru c"
| "execAct ru AdvanceTurn c e = Inr (advanceTurn c)"

fun execActs :: "(seed \<Rightarrow> 32 word) \<Rightarrow> act list \<Rightarrow> Context \<Rightarrow> event \<Rightarrow> reason + Context" where
  "execActs ru [] c e = Inr c"
| "execActs ru (a # as) c e =
     (case execAct ru a c e of Inl r \<Rightarrow> Inl r | Inr c' \<Rightarrow> execActs ru as c' e)"

fun GameMachine_entry :: "state_name \<Rightarrow> act list" where
  "GameMachine_entry StartOfTurn = [ResetContext]"
| "GameMachine_entry WaitForResponse = [SetCurrentAction]"
| "GameMachine_entry Block = [SetBlocker]"
| "GameMachine_entry Challenge = [SetChallenger, SetRevealerClaimant]"
| "GameMachine_entry ExecRevealOnChallenge = [RevealInfluence]"
| "GameMachine_entry ChallengeIncorrect = [ReplaceInfluence, SetRevealerChallenger]"
| "GameMachine_entry ExecCounterReveal = [RevealInfluence]"
| "GameMachine_entry WaitForBlock = [ClearRevealer, PayActionCost]"
| "GameMachine_entry FinishAction = [ClearRevealer, ApplyAction]"
| "GameMachine_entry RevealOnAction = []"
| "GameMachine_entry EndOfTurn = []"
| "GameMachine_entry GameOver = []"

fun GameMachine_always :: "state_name \<Rightarrow> (guard \<times> state_name \<times> act list) list" where
  "GameMachine_always WaitForResponse = [(IfActionHasNoResponse, FinishAction, [])]"
| "GameMachine_always Challenge = [(IfAutoReveal, ExecRevealOnChallenge, [])]"
| "GameMachine_always ExecRevealOnChallenge =
     [(IfChallengeIncorrect, ChallengeIncorrect, []),
      (IfActionWasBlocked, FinishAction, []),
      (Unguarded, EndOfTurn, [])]"
| "GameMachine_always ChallengeIncorrect = [(IfAutoReveal, ExecCounterReveal, [])]"
| "GameMachine_always ExecCounterReveal =
     [(IfActionWasBlocked, EndOfTurn, []),
      (IfBlockableAction, WaitForBlock, []),
      (Unguarded, FinishAction, [])]"
| "GameMachine_always FinishAction =
     [(IfPendingReveal, RevealOnAction, []),
      (Unguarded, EndOfTurn, [])]"
| "GameMachine_always RevealOnAction = [(IfAutoReveal, EndOfTurn, [RevealInfluence])]"
| "GameMachine_always EndOfTurn =
     [(GameIsOver, GameOver, []),
      (Unguarded, StartOfTurn, [AdvanceTurn])]"
| "GameMachine_always StartOfTurn = []"
| "GameMachine_always Block = []"
| "GameMachine_always WaitForBlock = []"
| "GameMachine_always GameOver = []"

fun GameMachine_on :: "state_name \<Rightarrow> etype \<Rightarrow> (guard \<times> state_name \<times> act list) option" where
  "GameMachine_on StartOfTurn ACTION = Some (AssertCanStartAction, WaitForResponse, [])"
| "GameMachine_on WaitForResponse BLOCK = Some (AssertCanBlock, Block, [PayActionCost])"
| "GameMachine_on WaitForResponse CHALLENGE = Some (AssertCanChallenge, Challenge, [])"
| "GameMachine_on WaitForResponse ALLOW = Some (AssertValidOpponent, FinishAction, [PayActionCost])"
| "GameMachine_on Block CHALLENGE = Some (AssertCanChallenge, Challenge, [])"
| "GameMachine_on Block ALLOW = Some (AssertCurrentPlayer, EndOfTurn, [])"
| "GameMachine_on Challenge REVEAL = Some (AssertCanReveal, ExecRevealOnChallenge, [])"
| "GameMachine_on ChallengeIncorrect REVEAL = Some (AssertCanReveal, ExecCounterReveal, [])"
| "GameMachine_on WaitForBlock BLOCK = Some (AssertCanBlock, Block, [])"
| "GameMachine_on WaitForBlock ALLOW = Some (AssertValidOpponent, FinishAction, [])"
| "GameMachine_on RevealOnAction REVEAL = Some (AssertCanReveal, EndOfTurn, [RevealInfluence])"
| "GameMachine_on _ _ = None"

subsection \<open>The interpreter (xstate's \<^verbatim>\<open>machine.transition\<close>)\<close>

text \<open>
  xstate is a library outside the repository; the interpreter below follows what its
  version 4 does with a machine of atomic states whose actions are all \<^verbatim>\<open>assign\<close>s.
  What \<^verbatim>\<open>transition\<close> throws: xstate wraps an exception of a guard in an error that names
  the state node and the event and carries the guard's message; an exception of an
  action is passed on; in \<^verbatim>\<open>strict\<close> mode an event type unknown to the machine (\<open>OTHER\<close>)
  is refused. An event of a known type that the current state does not handle selects no
  transition. \<open>NULL_EVENT\<close> is the type of xstate's own null event and has no handler.
\<close>

datatype error =
    GuardError state_name etype reason
  | ActionError reason
  | NotAccepted etype

record state =
  st_value :: state_name
  st_context :: Context

text \<open>
  The first transition of a list whose guard holds. Eventless transitions are evaluated
  with the null event.
\<close>

fun firstEnabled :: "(guard \<times> state_name \<times> act list) list \<Rightarrow> Context \<Rightarrow>
    reason + (state_name \<times> act list) option" where
  "firstEnabled [] c = Inr None"
| "firstEnabled ((g, t, a) # rest) c =
     (case evalGuard g c nullEvent of
        Inl r \<Rightarrow> Inl r
      | Inr b \<Rightarrow> if b then Inr (Some (t, a)) else firstEnabled rest c)"

text \<open>Every \<^verbatim>\<open>always\<close> transition leads to a state of lower rank, so settling ends.\<close>

fun rank :: "state_name \<Rightarrow> nat" where
  "rank WaitForResponse = 8"
| "rank Challenge = 7"
| "rank ExecRevealOnChallenge = 6"
| "rank ChallengeIncorrect = 5"
| "rank ExecCounterReveal = 4"
| "rank FinishAction = 3"
| "rank RevealOnAction = 2"
| "rank EndOfTurn = 1"
| "rank _ = 0"

lemma firstEnabled_mem:
  "firstEnabled ts c = Inr (Some (t, a)) \<Longrightarrow> \<exists>g. (g, t, a) \<in> set ts"
proof (induction ts)
  case Nil
  then show ?case by simp
next
  case (Cons x ts)
  obtain g' t' a' where x: "x = (g', t', a')" by (cases x)
  from Cons show ?case unfolding x by (fastforce split: sum.splits if_splits)
qed

lemma always_rank: "(g, t, a) \<in> set (GameMachine_always st) \<Longrightarrow> rank t < rank st"
  by (cases st) auto

text \<open>
  After the actions of a step, xstate keeps taking \<^verbatim>\<open>always\<close> transitions (transition
  actions, then the target's entry actions, all with the null event) until no guard of
  the state reached holds. The result also lists the actions executed, in order.
\<close>

function settle :: "(seed \<Rightarrow> 32 word) \<Rightarrow> state_name \<Rightarrow> Context \<Rightarrow>
    error + (state_name \<times> Context \<times> act list)" where
  "settle ru st c =
     (case firstEnabled (GameMachine_always st) c of
        Inl r \<Rightarrow> Inl (GuardError st NULL_EVENT r)
      | Inr None \<Rightarrow> Inr (st, c, [])
      | Inr (Some (t, a)) \<Rightarrow>
          (case execActs ru (a @ GameMachine_entry t) c nullEvent of
             Inl r \<Rightarrow> Inl (ActionError r)
           | Inr c' \<Rightarrow>
               (case settle ru t c' of
                  Inl x \<Rightarrow> Inl x
                | Inr (st', c'', acts) \<Rightarrow> Inr (st', c'', a @ GameMachine_entry t @ acts))))"
  by pat_completeness auto
termination
proof (relation "measure (\<lambda>(ru, st, c). rank st)")
  show "wf (measure (\<lambda>(ru, st, c). rank st))" by simp
next
  fix ru :: "seed \<Rightarrow> 32 word" and st c x y t and a :: "act list" and c' :: Context
  assume "firstEnabled (GameMachine_always st) c = Inr x" and "x = Some y" and "(t, a) = y"
  hence "firstEnabled (GameMachine_always st) c = Inr (Some (t, a))" by simp
  from firstEnabled_mem [OF this] always_rank [of _ t a st]
  show "((ru, t, c'), ru, st, c) \<in> measure (\<lambda>(ru, st, c). rank st)" by auto
qed

declare settle.simps [simp del]

text \<open>
  Taking a transition: its actions, then the entry actions of its target, all with the
  same event; then the machine settles in the target.
\<close>

definition follow :: "(seed \<Rightarrow> 32 word) \<Rightarrow> state_name \<Rightarrow> act list \<Rightarrow> Context \<Rightarrow> event \<Rightarrow>
    error + (state_name \<times> Context \<times> act list)" where
  "follow ru t a c e =
     (case execActs ru (a @ GameMachine_entry t) c e of
        Inl r \<Rightarrow> Inl (ActionError r)
      | Inr c' \<Rightarrow>
          (case settle ru t c' of
             Inl x \<Rightarrow> Inl x
           | Inr (st', c'', acts) \<Rightarrow> Inr (st', c'', a @ GameMachine_entry t @ acts)))"

text \<open>
  One call of \<^verbatim>\<open>GameMachine.transition(state, event)\<close>: the guard of the state's handler
  for the event type is evaluated first; if it holds, the transition is taken with the
  event. Without a handler only the eventless transitions of the current state are tried.
\<close>

definition macrostep :: "(seed \<Rightarrow> 32 word) \<Rightarrow> state \<Rightarrow> event \<Rightarrow>
    error + (state_name \<times> Context \<times> act list)" where
  "macrostep ru s e =
     (if ev_type e = OTHER then Inl (NotAccepted (ev_type e))
      else
        (case GameMachine_on (st_value s) (ev_type e) of
           None \<Rightarrow> settle ru (st_value s) (st_context s)
         | Some (g, t, a) \<Rightarrow>
             (case evalGuard g (st_context s) e of
                Inl r \<Rightarrow> Inl (GuardError (st_value s) (ev_type e) r)
              | Inr b \<Rightarrow>
                  if \<not> b then settle ru (st_value s) (st_context s)
                  else follow ru t a (st_context s) e)))"

definition transition :: "(seed \<Rightarrow> 32 word) \<Rightarrow> state \<Rightarrow> event \<Rightarrow> error + state" where
  "transition ru s e =
     (case macrostep ru s e of
        Inl x \<Rightarrow> Inl x
      | Inr (st', c', acts) \<Rightarrow> Inr \<lparr>st_value = st', st_context = c'\<rparr>)"

text \<open>
  \<^verbatim>\<open>GameMachine.withContext(context).initialState\<close>: the entry action of the initial state
  \<open>StartOfTurn\<close> has run, and \<open>StartOfTurn\<close> has no eventless transition.
\<close>

definition initialState :: "Context \<Rightarrow> state" where
  "initialState c = \<lparr>st_value = StartOfTurn, st_context = resetContext c\<rparr>"

text \<open>A sequence of events, stopping at the first one that throws.\<close>

fun run :: "(seed \<Rightarrow> 32 word) \<Rightarrow> state \<Rightarrow> event list \<Rightarrow> error + state" where
  "run ru s [] = Inr s"
| "run ru s (e # es) =
     (case transition ru s e of Inl x \<Rightarrow> Inl x | Inr s' \<Rightarrow> run ru s' es)"

text \<open>The same run, with the actions executed along it.\<close>

fun runLog :: "(seed \<Rightarrow> 32 word) \<Rightarrow> state \<Rightarrow> event list \<Rightarrow> error + (state \<times> act list)" where
  "runLog ru s [] = Inr (s, [])"
| "runLog ru s (e # es) =
     (case macrostep ru s e of
        Inl x \<Rightarrow> Inl x
      | Inr (st', c', acts) \<Rightarrow>
          (case runLog ru \<lparr>st_value = st', st_context = c'\<rparr> es of
             Inl x \<Rightarrow> Inl x
           | Inr (s'', acts') \<Rightarrow> Inr (s'', acts @ acts')))"

section \<open>Quantities and example games\<close>

subsection \<open>Counting cards\<close>

text \<open>The influence cards held by the players, face up or down, and those still face down.\<close>

definition slots :: "Context \<Rightarrow> nat" where
  "slots c = sum_list (map (\<lambda>p. length (influence p)) (players c))"

definition unrevealedTotal :: "Context \<Rightarrow> nat" where
  "unrevealedTotal c = sum_list (map Player_countInf (players c))"

definition cardTotal :: "Context \<Rightarrow> nat" where
  "cardTotal c = length (deck c) + slots c"

subsection \<open>Counting payments\<close>

text \<open>
  A check on the actions executed along a run: \<open>paidOnce due as\<close> holds when every
  \<open>PayActionCost\<close> in \<open>as\<close> comes after a \<open>SetCurrentAction\<close> with no other
  \<open>PayActionCost\<close> in between; \<open>due\<close> tells whether a payment is open at the start.
  \<open>dueAfter\<close> is the flag at the end.
\<close>

fun paidOnce :: "bool \<Rightarrow> act list \<Rightarrow> bool" where
  "paidOnce due [] = True"
| "paidOnce due (SetCurrentAction # as) = paidOnce True as"
| "paidOnce due (PayActionCost # as) = (due \<and> paidOnce False as)"
| "paidOnce due (a # as) = paidOnce due as"

fun dueAfter :: "bool \<Rightarrow> act list \<Rightarrow> bool" where
  "dueAfter due [] = due"
| "dueAfter due (SetCurrentAction # as) = dueAfter True as"
| "dueAfter due (PayActionCost # as) = dueAfter False as"
| "dueAfter due (a # as) = dueAfter due as"

text \<open>The states from which a payment for the current action can still come.\<close>

definition mayPay :: "state_name \<Rightarrow> Context \<Rightarrow> bool" where
  "mayPay st c =
     (st = WaitForResponse \<or>
      ((st = Block \<or> st = Challenge \<or> st = ExecRevealOnChallenge \<or> st = ChallengeIncorrect \<or>
        st = ExecCounterReveal) \<and> blocker c = None))"

text \<open>
  The coins that \<^verbatim>\<open>Game.applyAction\<close> gives the active player, and the cost of an
  action where \<^verbatim>\<open>GameDef.getCost\<close> returns one.
\<close>

definition gainOf :: "string option \<Rightarrow> int" where
  "gainOf a = (if a = Some ''income'' then 1 else if a = Some ''foreign-aid'' then 2
               else if a = Some ''tax'' then 3 else 0)"

definition costOf :: "string option \<Rightarrow> int" where
  "costOf a = (case getCost a of Inl x \<Rightarrow> 0 | Inr n \<Rightarrow> n)"

text \<open>
  The change of the active player's cash over a list of executed actions: each
  \<open>PayActionCost\<close> takes \<open>n\<close>, each \<open>ApplyAction\<close> gives \<open>g\<close>.
\<close>

fun netCash :: "int \<Rightarrow> int \<Rightarrow> act list \<Rightarrow> int" where
  "netCash n g [] = 0"
| "netCash n g (PayActionCost # as) = netCash n g as - n"
| "netCash n g (ApplyAction # as) = netCash n g as + g"
| "netCash n g (a # as) = netCash n g as"

text \<open>Actions that neither start an action nor end the turn.\<close>

definition innerActs :: "act list \<Rightarrow> bool" where
  "innerActs as = (AdvanceTurn \<notin> set as \<and> ResetContext \<notin> set as \<and> SetCurrentAction \<notin> set as)"

subsection \<open>Rejections\<close>

text \<open>
  The reasons that are messages of the guards, thrown by the \<^verbatim>\<open>assert...\<close> functions;
  the others come from the actions or from JavaScript itself.
\<close>

fun isIllegalEvent :: "reason \<Rightarrow> bool" where
  "isIllegalEvent (MustSpecifyValidPlayer t) = True"
| "isIllegalEvent (MustSpecifyValidAction t) = True"
| "isIllegalEvent (NotAllowedFromPlayer t p) = True"
| "isIllegalEvent (MustTargetValidPlayer t) = True"
| "isIllegalEvent (CannotTargetPlayer t p) = True"
| "isIllegalEvent (CannotAffordAction p a) = True"
| "isIllegalEvent (MustSpecifyValidRole t) = True"
| "isIllegalEvent (MustSpecifyHeldRole t) = True"
| "isIllegalEvent (ActionCannotBeChallenged a) = True"
| "isIllegalEvent (ActionCannotBeBlockedBy a r) = True"
| "isIllegalEvent (PlayerDoesNotHaveRole r) = False"
| "isIllegalEvent TypeError = False"
| "isIllegalEvent EmptyDeck = False"

text \<open>
  What a caller holds after an event that may be refused: the state returned, or the state
  passed in when \<^verbatim>\<open>transition\<close> throws. The test suite does so: after
  \<^verbatim>\<open>assertThrows(() => GameMachine.transition(game4, ...))\<close> it goes on with \<^verbatim>\<open>game4\<close>.
\<close>

definition stateAfter :: "(seed \<Rightarrow> 32 word) \<Rightarrow> state \<Rightarrow> event \<Rightarrow> state" where
  "stateAfter ru s e = (case transition ru s e of Inl x \<Rightarrow> s | Inr s' \<Rightarrow> s')"

subsection \<open>Random sources\<close>

text \<open>
  Two random sources agree from a seed on when they return the same number at that seed
  and at every seed that \<^verbatim>\<open>_nextSeed\<close> of the first reaches from it.
\<close>

abbreviation agree :: "(seed \<Rightarrow> 32 word) \<Rightarrow> (seed \<Rightarrow> 32 word) \<Rightarrow> seed \<Rightarrow> bool" where
  "agree ru1 ru2 sd \<equiv> \<forall>k. ru2 ((Rand_nextSeed ru1 ^^ k) sd) = ru1 ((Rand_nextSeed ru1 ^^ k) sd)"

subsection \<open>Example games\<close>

text \<open>
  Three players with two coins and two cards each, dealt from the default deck of
  fifteen; the nine cards left are the deck. Player 1 holds no duke.
\<close>

definition exampleGame :: Context where
  "exampleGame = \<lparr>whoseTurn = 0,
     players =
       [\<lparr>cash = 2, influence = [\<lparr>role = ''duke'', revealed = False\<rparr>,
                                \<lparr>role = ''captain'', revealed = False\<rparr>]\<rparr>,
        \<lparr>cash = 2, influence = [\<lparr>role = ''assassin'', revealed = False\<rparr>,
                                \<lparr>role = ''contessa'', revealed = False\<rparr>]\<rparr>,
        \<lparr>cash = 2, influence = [\<lparr>role = ''ambassador'', revealed = False\<rparr>,
                                \<lparr>role = ''duke'', revealed = False\<rparr>]\<rparr>],
     deck = [''duke'', ''assassin'', ''assassin'', ''captain'', ''captain'',
             ''ambassador'', ''ambassador'', ''contessa'', ''contessa''],
     seed = [1, 2, 3, 4],
     gdef = \<lparr>roles = [''duke'', ''assassin'', ''captain'', ''ambassador'', ''contessa'']\<rparr>,
     currentAction = None, target = None, blocker = None, challenger = None,
     revealer = None, revealedRole = None\<rparr>"

definition evAction :: "int \<Rightarrow> string \<Rightarrow> int option \<Rightarrow> event" where
  "evAction p a t = \<lparr>ev_type = ACTION, ev_player = Some p, ev_action = Some a,
     ev_target = t, ev_role = None\<rparr>"

definition evBlock :: "int \<Rightarrow> string \<Rightarrow> event" where
  "evBlock p r = \<lparr>ev_type = BLOCK, ev_player = Some p, ev_action = None,
     ev_target = None, ev_role = Some r\<rparr>"

definition evChallenge :: "int \<Rightarrow> event" where
  "evChallenge p = \<lparr>ev_type = CHALLENGE, ev_player = Some p, ev_action = None,
     ev_target = None, ev_role = None\<rparr>"

definition evAllow :: "int \<Rightarrow> event" where
  "evAllow p = \<lparr>ev_type = ALLOW, ev_player = Some p, ev_action = None,
     ev_target = None, ev_role = None\<rparr>"

definition evReveal :: "int \<Rightarrow> string \<Rightarrow> event" where
  "evReveal p r = \<lparr>ev_type = REVEAL, ev_player = Some p, ev_action = None,
     ev_target = None, ev_role = Some r\<rparr>"

text \<open>The second game of the test suite: each player has one influence left.\<close>

definition oneCardGame :: Context where
  "oneCardGame = exampleGame\<lparr>whoseTurn := 1,
     players :=
       [\<lparr>cash = 2, influence = [\<lparr>role = ''duke'', revealed = True\<rparr>,
                                \<lparr>role = ''contessa'', revealed = False\<rparr>]\<rparr>,
        \<lparr>cash = 3, influence = [\<lparr>role = ''captain'', revealed = True\<rparr>,
                                \<lparr>role = ''duke'', revealed = False\<rparr>]\<rparr>]\<rparr>"

text \<open>
  A game played from the initial state of the example: player 1 twice claims tax without
  a duke and is challenged, showing the assassin the first time and, by auto-reveal, the
  contessa the second time. Player 1 is then dead, two players live on, and it is the turn
  of player 2.
\<close>

definition killPlayer1 :: "event list" where
  "killPlayer1 =
     [evAction 0 ''income'' None,
      evAction 1 ''tax'' None, evChallenge 2, evReveal 1 ''assassin'',
      evAction 2 ''income'' None,
      evAction 0 ''income'' None,
      evAction 1 ''tax'' None, evChallenge 0]"

definition afterDeath :: Context where
  "afterDeath = exampleGame\<lparr>whoseTurn := 2,
     players :=
       [\<lparr>cash = 4, influence = [\<lparr>role = ''duke'', revealed = False\<rparr>,
                                \<lparr>role = ''captain'', revealed = False\<rparr>]\<rparr>,
        \<lparr>cash = 2, influence = [\<lparr>role = ''assassin'', revealed = True\<rparr>,
                                \<lparr>role = ''contessa'', revealed = True\<rparr>]\<rparr>,
        \<lparr>cash = 3, influence = [\<lparr>role = ''ambassador'', revealed = False\<rparr>,
                                \<lparr>role = ''duke'', revealed = False\<rparr>]\<rparr>]\<rparr>"

text \<open>The example game with seven coins for player 0, enough for a coup.\<close>

definition richGame :: Context where
  "richGame = exampleGame\<lparr>players := (players exampleGame)[0 := (players exampleGame ! 0)\<lparr>cash := 7\<rparr>]\<rparr>"

text \<open>
  After the death of player 1, player 2 assassinates player 0 with three coins and
  player 0 allows it: the cost is paid, and player 0 is to reveal.
\<close>

definition assassinated :: state where
  "assassinated = \<lparr>st_value = RevealOnAction,
     st_context = afterDeath\<lparr>currentAction := Some ''assassinate'', target := Some 0,
       revealer := Some 0,
       players := (players afterDeath)[2 := (players afterDeath ! 2)\<lparr>cash := 0\<rparr>]\<rparr>\<rparr>"

text \<open>
  The same action challenged by player 0: player 2 holds no assassin and shows the duke,
  the turn ends.
\<close>

definition caughtBluffing :: state where
  "caughtBluffing = \<lparr>st_value = StartOfTurn,
     st_context = afterDeath\<lparr>whoseTurn := 0,
       players := (players afterDeath)[2 := (players afterDeath ! 2)\<lparr>influence :=
         [\<lparr>role = ''ambassador'', revealed = False\<rparr>, \<lparr>role = ''duke'', revealed = True\<rparr>]\<rparr>]\<rparr>\<rparr>"

text \<open>
  In the example game player 0 claims tax, is challenged by player 1 and shows the duke:
  the duke goes back to the deck, the deck is shuffled and player 0 draws. With a random
  source that always returns the largest number the shuffle takes the last card first.
\<close>

definition redealt :: state where
  "redealt = \<lparr>st_value = ChallengeIncorrect,
     st_context = exampleGame\<lparr>
       players := (players exampleGame)[0 := (players exampleGame ! 0)\<lparr>influence :=
         [\<lparr>role = ''contessa'', revealed = False\<rparr>, \<lparr>role = ''captain'', revealed = False\<rparr>]\<rparr>],
       deck := [''contessa'', ''ambassador'', ''ambassador'', ''captain'', ''captain'',
                ''assassin'', ''assassin'', ''duke'', ''duke''],
       seed := [4294967295, 4294967295, 4294967295, 4294967295],
       currentAction := Some ''tax'', challenger := Some 1, revealer := Some 1\<rparr>\<rparr>"

section \<open>Unfolding the interpreter\<close>

lemma settle_unfold:
  "settle ru st c =
     (case firstEnabled (GameMachine_always st) c of
        Inl r \<Rightarrow> Inl (GuardError st NULL_EVENT r)
      | Inr None \<Rightarrow> Inr (st, c, [])
      | Inr (Some (t, a)) \<Rightarrow> follow ru t a c nullEvent)"
  unfolding follow_def by (subst settle.simps) (rule refl)

lemmas settle_at =
  settle_unfold [of _ StartOfTurn] settle_unfold [of _ WaitForResponse]
  settle_unfold [of _ Block] settle_unfold [of _ Challenge]
  settle_unfold [of _ ExecRevealOnChallenge] settle_unfold [of _ ChallengeIncorrect]
  settle_unfold [of _ ExecCounterReveal] settle_unfold [of _ WaitForBlock]
  settle_unfold [of _ FinishAction] settle_unfold [of _ RevealOnAction]
  settle_unfold [of _ EndOfTurn] settle_unfold [of _ GameOver]

lemma follow_Inr:
  assumes "follow ru t a c e = Inr (st', c', acts)"
  shows "\<exists>c1 acts1. execActs ru (a @ GameMachine_entry t) c e = Inr c1 \<and>
     settle ru t c1 = Inr (st', c', acts1) \<and> acts = a @ GameMachine_entry t @ acts1"
  using assms unfolding follow_def by (auto split: sum.splits)

lemma settle_Inr:
  assumes "settle ru st c = Inr (st', c', acts)"
  shows "(firstEnabled (GameMachine_always st) c = Inr None \<and> st' = st \<and> c' = c \<and> acts = []) \<or>
    (\<exists>t a. firstEnabled (GameMachine_always st) c = Inr (Some (t, a)) \<and>
       follow ru t a c nullEvent = Inr (st', c', acts))"
  using assms by (subst (asm) settle_unfold) (auto split: sum.splits option.splits)

lemma macrostep_Inr:
  assumes "macrostep ru s e = Inr (st', c', acts)"
  shows "settle ru (st_value s) (st_context s) = Inr (st', c', acts) \<or>
    (\<exists>g t a. GameMachine_on (st_value s) (ev_type e) = Some (g, t, a) \<and>
       evalGuard g (st_context s) e = Inr True \<and>
       follow ru t a (st_context s) e = Inr (st', c', acts))"
  using assms unfolding macrostep_def
  by (auto split: if_splits option.splits sum.splits prod.splits)

text \<open>
  Induction over the eventless transitions: a property of a settling run holds when it
  holds where the machine rests and is carried back over every transition taken.
\<close>

lemma settle_induct_rule:
  assumes run: "settle ru st c = Inr (st', c', acts)"
    and rest: "\<And>st c. firstEnabled (GameMachine_always st) c = Inr None \<Longrightarrow> P st c st c []"
    and step: "\<And>st c t a c1 acts1.
       firstEnabled (GameMachine_always st) c = Inr (Some (t, a)) \<Longrightarrow>
       execActs ru (a @ GameMachine_entry t) c nullEvent = Inr c1 \<Longrightarrow>
       settle ru t c1 = Inr (st', c', acts1) \<Longrightarrow>
       P t c1 st' c' acts1 \<Longrightarrow> P st c st' c' (a @ GameMachine_entry t @ acts1)"
  shows "P st c st' c' acts"
  using run step
proof (induction ru st c arbitrary: acts rule: settle.induct)
  case (1 ru st c)
  note stp = "1.prems"(2)
  from settle_Inr [OF "1.prems"(1)] show ?case
  proof (elim disjE exE conjE)
    assume "firstEnabled (GameMachine_always st) c = Inr None" "st' = st" "c' = c" "acts = []"
    with rest show ?thesis by simp
  next
    fix t a
    assume f: "firstEnabled (GameMachine_always st) c = Inr (Some (t, a))"
      and "follow ru t a c nullEvent = Inr (st', c', acts)"
    from follow_Inr [OF this(2)] obtain c1 acts1 where
      e: "execActs ru (a @ GameMachine_entry t) c nullEvent = Inr c1" and
      s: "settle ru t c1 = Inr (st', c', acts1)" and a: "acts = a @ GameMachine_entry t @ acts1"
      by blast
    have "P t c1 st' c' acts1"
      by (rule "1.IH" [OF f refl refl e s]) (rule stp; assumption)
    from stp [OF f e s this] a show ?thesis by simp
  qed
qed

section \<open>Properties of the shuffle\<close>

lemma remove_mset: "i < length xs \<Longrightarrow> add_mset (xs ! i) (mset (remove i xs)) = mset xs"
  unfolding remove_def
  by (metis add_mset_add_single append_take_drop_id id_take_nth_drop mset.simps(2) mset_append union_mset_add_mset_right Cons_nth_drop_Suc)
lemma Rand_random_idx:
  assumes "\<not> length xs \<le> 1" and "Rand_random ru 0 (int (length xs) - 1) sd = (i, seed1)"
  shows "0 \<le> i \<and> nat i < length xs \<and> seed1 = Rand_nextSeed ru sd"
proof -
  have "(0::int) \<le> int (length xs) - 1" using assms(1) by (cases xs) simp_all
  from Rand_random'_range [OF this, of ru sd] assms show ?thesis
    by (simp add: Rand_random_def) linarith
qed

lemma shuffle_short: "length xs \<le> 1 \<Longrightarrow> shuffle ru xs sd = (xs, sd)"
  by (simp add: shuffle.simps)

lemma shuffle_long:
  "\<not> length xs \<le> 1 \<Longrightarrow> shuffle ru xs sd =
     (case Rand_random ru 0 (int (length xs) - 1) sd of (i, seed1) \<Rightarrow>
        (case shuffle ru (remove (nat i) xs) seed1 of (tail, seed2) \<Rightarrow>
           (xs ! nat i # tail, seed2)))"
  by (subst shuffle.simps) simp

lemma shuffle_mset: "mset (fst (shuffle ru xs sd)) = mset xs"
proof (induction ru xs sd rule: shuffle.induct)
  case (1 ru xs sd)
  show ?case
  proof (cases "length xs \<le> 1")
    case True
    then show ?thesis by (simp add: shuffle.simps)
  next
    case False
    obtain i seed1 where r: "Rand_random ru 0 (int (length xs) - 1) sd = (i, seed1)"
      by (cases "Rand_random ru 0 (int (length xs) - 1) sd")
    obtain tail seed2 where s: "shuffle ru (remove (nat i) xs) seed1 = (tail, seed2)"
      by (cases "shuffle ru (remove (nat i) xs) seed1")
    have lt: "nat i < length xs" using Rand_random_idx [OF False r] by simp
    have "mset tail = mset (remove (nat i) xs)"
      using "1.IH" [OF False r [symmetric]] s by simp
    with remove_mset [OF lt] show ?thesis
      using False r s by (simp add: shuffle.simps [of ru xs sd])
  qed
qed

lemma shuffle_seed: "snd (shuffle ru xs sd) = (Rand_nextSeed ru ^^ (length xs - 1)) sd"
proof (induction ru xs sd rule: shuffle.induct)
  case (1 ru xs sd)
  show ?case
  proof (cases "length xs \<le> 1")
    case True
    then show ?thesis by (simp add: shuffle.simps)
  next
    case False
    obtain i seed1 where r: "Rand_random ru 0 (int (length xs) - 1) sd = (i, seed1)"
      by (cases "Rand_random ru 0 (int (length xs) - 1) sd")
    obtain tail seed2 where s: "shuffle ru (remove (nat i) xs) seed1 = (tail, seed2)"
      by (cases "shuffle ru (remove (nat i) xs) seed1")
    have lt: "nat i < length xs" using Rand_random_idx [OF False r] by simp
    hence len: "length (remove (nat i) xs) = length xs - 1" by (auto simp: remove_def)
    have s1: "seed1 = Rand_nextSeed ru sd" using r by (simp add: Rand_random_def)
    have "seed2 = (Rand_nextSeed ru ^^ (length xs - 1 - 1)) seed1"
      using "1.IH" [OF False r [symmetric]] s len by simp
    moreover have "length xs - 1 = Suc (length xs - 1 - 1)" using False by simp
    ultimately have "seed2 = (Rand_nextSeed ru ^^ (length xs - 1)) sd"
      using s1 by (metis funpow_Suc_right o_apply)
    then show ?thesis
      using False r s by (simp add: shuffle.simps [of ru xs sd])
  qed
qed



lemma shuffle_length: "length (fst (shuffle ru xs sd)) = length xs"
proof -
  have "size (mset (fst (shuffle ru xs sd))) = size (mset xs)" by (simp add: shuffle_mset)
  then show ?thesis by simp
qed

text \<open>
  C6. For every seed and every list, \<^verbatim>\<open>Rand.shuffle\<close> returns a permutation of its input:
  the output has the same multiset of elements (nothing lost, nothing duplicated) and the
  same length. The result is a function of the seed and the list alone, and the final seed
  is the input seed advanced by \<^verbatim>\<open>_nextSeed\<close> once per draw, that is \<open>length xs - 1\<close> times.
\<close>

theorem shuffle_permutation:
  "mset (fst (shuffle ru xs sd)) = mset xs \<and>
   length (fst (shuffle ru xs sd)) = length xs \<and>
   snd (shuffle ru xs sd) = (Rand_nextSeed ru ^^ (length xs - 1)) sd"
  using shuffle_mset [of ru xs sd] shuffle_length [of ru xs sd] shuffle_seed [of ru xs sd]
  by simp

theorem shuffle_permutation_witness:
  "mset (fst (shuffle (\<lambda>s. 7) [''duke'', ''captain'', ''contessa''] [1, 2, 3, 4])) =
     mset [''duke'', ''captain'', ''contessa''] \<and>
   length (fst (shuffle (\<lambda>s. 7) [''duke'', ''captain'', ''contessa''] [1, 2, 3, 4])) = 3 \<and>
   snd (shuffle (\<lambda>s. 7) [''duke'', ''captain'', ''contessa''] [1, 2, 3, 4]) = [3, 4, 7, 7]"
  using shuffle_permutation [of "\<lambda>s. 7" "[''duke'', ''captain'', ''contessa'']" "[1, 2, 3, 4]"]
  by (simp add: Rand_nextSeed_def)

section \<open>Conservation of cards\<close>

lemma sum_list_update_same:
  "f y = f (xs ! i) \<Longrightarrow> sum_list (map f (xs[i := y])) = (sum_list (map f xs) :: nat)"
proof (induction xs arbitrary: i)
  case Nil
  then show ?case by simp
next
  case (Cons x xs)
  then show ?case by (cases i) simp_all
qed

lemma overPlayer_slots:
  assumes "overPlayer idx f c = Inr c'" and "\<And>p p'. f p = Inr p' \<Longrightarrow> length (influence p') = length (influence p)"
  shows "slots c' = slots c \<and> deck c' = deck c"
  using assms
  by (auto simp: overPlayer_def slots_def split: option.splits if_splits sum.splits
      intro!: sum_list_update_same)

lemma revealRole_len: "Player_revealRole r p = Inr p' \<Longrightarrow> length (influence p') = length (influence p)"
  by (auto simp: Player_revealRole_def split: option.splits)

lemma unrevealRole_len: "Player_unrevealRole r p = Inr p' \<Longrightarrow> length (influence p') = length (influence p)"
  by (auto simp: Player_unrevealRole_def split: option.splits)

lemma swapRole_len: "Player_swapRole r r' p = Inr p' \<Longrightarrow> length (influence p') = length (influence p)"
  by (auto simp: Player_swapRole_def split: option.splits)

lemma overActivePlayer_slots: "slots (overActivePlayer (Player_adjustCash n) c) = slots c"
  by (simp add: overActivePlayer_def slots_def Player_adjustCash_def sum_list_update_same)

lemma overActivePlayer_deck: "deck (overActivePlayer f c) = deck c"
  by (simp add: overActivePlayer_def)

lemma revealInfluence_total:
  "revealInfluence c e = Inr c' \<Longrightarrow> slots c' = slots c \<and> deck c' = deck c"
  unfolding revealInfluence_def
  by (auto split: option.splits sum.splits if_splits dest!: overPlayer_slots [OF _ revealRole_len] simp: slots_def)

lemma redeal_total:
  assumes "redealPlayerRole ru idx r c = Inr c'"
  shows "slots c' = slots c \<and> length (deck c') = length (deck c)"
proof -
  obtain d s where sh: "shuffle ru (r # deck c) (seed c) = (d, s)"
    by (cases "shuffle ru (r # deck c) (seed c)")
  have len: "length d = Suc (length (deck c))"
    using shuffle_length [of ru "r # deck c" "seed c"] sh by simp
  then obtain x rest where d: "d = x # rest" by (cases d) auto
  from assms sh d have "overPlayer idx (Player_swapRole r x) (c\<lparr>seed := s, deck := rest\<rparr>) = Inr c'"
    by (simp add: redealPlayerRole_def Game_popDeck_def Game_shuffleDeck_def Game_pushDeck_def)
  from overPlayer_slots [OF this swapRole_len] len d show ?thesis by (simp add: slots_def)
qed

lemma replaceInfluence_total:
  assumes "replaceInfluence ru c = Inr c'"
  shows "slots c' = slots c \<and> length (deck c') = length (deck c)"
proof -
  from assms obtain r c1 where 1: "overPlayer (revealer c) (Player_unrevealRole r) c = Inr c1"
    and 2: "redealPlayerRole ru (revealer c) r c1 = Inr c'"
    by (auto simp: replaceInfluence_def split: option.splits sum.splits)
  from overPlayer_slots [OF 1 unrevealRole_len] redeal_total [OF 2] show ?thesis by simp
qed

lemma execAct_total: "execAct ru a c e = Inr c' \<Longrightarrow> cardTotal c' = cardTotal c"
proof (cases a)
  case PayActionCost
  assume "execAct ru a c e = Inr c'"
  with PayActionCost show ?thesis
    by (auto simp: cardTotal_def payActionCost_def overActivePlayer_slots overActivePlayer_deck split: sum.splits)
next
  case ApplyAction
  assume "execAct ru a c e = Inr c'"
  with ApplyAction show ?thesis
    by (auto simp: cardTotal_def applyAction_def Game_applyAction_def overActivePlayer_slots
        overActivePlayer_deck split: option.splits if_splits)
      (simp add: Game_applyRevealAction_def slots_def)
next
  case RevealInfluence
  assume "execAct ru a c e = Inr c'"
  with RevealInfluence revealInfluence_total [of c e c'] show ?thesis by (simp add: cardTotal_def)
next
  case ReplaceInfluence
  assume "execAct ru a c e = Inr c'"
  with ReplaceInfluence replaceInfluence_total [of ru c c'] show ?thesis by (simp add: cardTotal_def)
qed (auto simp: cardTotal_def slots_def resetContext_def setCurrentAction_def setBlocker_def
      setChallenger_def setRevealer_def clearRevealer_def advanceTurn_def)

lemma execActs_total: "execActs ru as c e = Inr c' \<Longrightarrow> cardTotal c' = cardTotal c"
proof (induction as arbitrary: c)
  case Nil
  then show ?case by simp
next
  case (Cons a as)
  then show ?case by (auto split: sum.splits dest: execAct_total)
qed

lemma settle_total:
  assumes "settle ru st c = Inr (st', c', acts)"
  shows "cardTotal c' = cardTotal c"
proof (rule settle_induct_rule [OF assms, where P = "\<lambda>st c st' c' acts. cardTotal c' = cardTotal c"])
  fix st c
  show "cardTotal c = cardTotal c" by simp
next
  fix st c t a c1 acts1
  assume "execActs ru (a @ GameMachine_entry t) c nullEvent = Inr c1" "cardTotal c' = cardTotal c1"
  with execActs_total [of ru "a @ GameMachine_entry t" c nullEvent c1]
  show "cardTotal c' = cardTotal c" by simp
qed

lemma follow_total: "follow ru t a c e = Inr (st', c', acts) \<Longrightarrow> cardTotal c' = cardTotal c"
  by (drule follow_Inr) (metis execActs_total settle_total)

lemma macrostep_total:
  assumes "macrostep ru s e = Inr (st', c', acts)"
  shows "cardTotal c' = cardTotal (st_context s)"
  using macrostep_Inr [OF assms] by (metis follow_total settle_total)

lemma transition_total:
  "transition ru s e = Inr s' \<Longrightarrow> cardTotal (st_context s') = cardTotal (st_context s)"
  unfolding transition_def by (auto split: sum.splits prod.splits dest: macrostep_total)

lemma run_total: "run ru s0 evs = Inr s \<Longrightarrow> cardTotal (st_context s) = cardTotal (st_context s0)"
proof (induction evs arbitrary: s0)
  case Nil
  then show ?case by simp
next
  case (Cons e evs)
  then show ?case by (auto split: sum.splits dest: transition_total)
qed


lemmas eval_defs = macrostep_def transition_def follow_def settle_at initialState_def
  exampleGame_def evAction_def evBlock_def evChallenge_def evAllow_def evReveal_def nullEvent_def
  resetContext_def setCurrentAction_def setBlocker_def setChallenger_def setRevealer_def
  clearRevealer_def advanceTurn_def applyAction_def Game_applyAction_def revealInfluence_def
  replaceInfluence_def payActionCost_def overActivePlayer_def overPlayer_def viewPlayer_def
  Game_applyRevealAction_def redealPlayerRole_def Game_popDeck_def Game_pushDeck_def
  Game_shuffleDeck_def Player_adjustCash_def Player_revealRole_def Player_unrevealRole_def
  Player_swapRole_def Player_getFirstRole_def Player_countInf_def Player_hasNInf_def
  Player_isDead_def Game_isOver_def Game_playerHasNInf_def Game_playerHasRole_def
  Game_playerCanAffordAction_def getCost_def isTargeted_def isBlockedBy_def ifRoleAllowsAction_def
  isRoleRequired_def isBlockable_def getRequiredRoles_def getBlockingRoles_def lookupAction_def
  isValidAction_def isValidRole_def GameDef_actions_def Object_prototype_keys_def no_metadata_def
  isValidPlayerIdx_def assertValidPlayer_def assertCanStartAction_def assertCanReveal_def
  assertValidOpponent_def assertCurrentPlayer_def assertCanChallenge_def assertCanBlock_def
  ifActionWasBlocked_def ifActionHasResponse_def ifActionHasNoResponse_def ifChallengeIncorrect_def
  ifPendingReveal_def ifBlockableAction_def ifAutoReveal_def

text \<open>
  Player 0 claims tax, player 1 challenges, and player 0 shows the captain: the challenge
  was right, player 0 has lost an influence, and the turn passes.
\<close>

lemma run_lost_challenge:
  "run ru (initialState exampleGame)
     [evAction 0 ''tax'' None, evChallenge 1, evReveal 0 ''captain''] =
   Inr \<lparr>st_value = StartOfTurn,
        st_context = exampleGame\<lparr>whoseTurn := 1,
          players := (players exampleGame)[0 :=
            \<lparr>cash = 2, influence = [\<lparr>role = ''duke'', revealed = False\<rparr>,
                                     \<lparr>role = ''captain'', revealed = True\<rparr>]\<rparr>]\<rparr>\<rparr>"
  by (simp add: eval_defs)

text \<open>
  C1, as stated, fails: the deck length plus the number of unrevealed influence cards is
  15 in the initial state of the example game and 14 after the run above, since
  \<^verbatim>\<open>revealInfluence\<close> turns a card face up and leaves the deck alone.
\<close>

theorem unrevealed_sum_counterexample:
  "(case run (\<lambda>s. 0) (initialState exampleGame)
          [evAction 0 ''tax'' None, evChallenge 1, evReveal 0 ''captain''] of
      Inl x \<Rightarrow> None
    | Inr s \<Rightarrow> Some (length (deck (st_context s)) + unrevealedTotal (st_context s))) = Some 14 \<and>
   length (deck (st_context (initialState exampleGame))) +
     unrevealedTotal (st_context (initialState exampleGame)) = 15"
  unfolding run_lost_challenge
  by (simp add: exampleGame_def initialState_def resetContext_def unrevealedTotal_def
      Player_countInf_def)

text \<open>
  C1, amended. Along every accepted sequence of events, from any state, the deck length
  plus the number of influence cards held by the players (revealed or not) keeps its
  value, and the initial state has the value of the context it was made from.
\<close>

theorem card_total_invariant:
  assumes "run ru s0 evs = Inr s"
  shows "cardTotal (st_context s) = cardTotal (st_context s0) \<and>
    cardTotal (st_context (initialState c)) = cardTotal c"
  using run_total [OF assms]
  by (simp add: initialState_def resetContext_def cardTotal_def slots_def)

theorem card_total_invariant_witness:
  "run (\<lambda>s. 0) (initialState exampleGame)
     [evAction 0 ''tax'' None, evChallenge 1, evReveal 0 ''captain''] =
   Inr \<lparr>st_value = StartOfTurn,
        st_context = exampleGame\<lparr>whoseTurn := 1,
          players := (players exampleGame)[0 :=
            \<lparr>cash = 2, influence = [\<lparr>role = ''duke'', revealed = False\<rparr>,
                                     \<lparr>role = ''captain'', revealed = True\<rparr>]\<rparr>]\<rparr>\<rparr> \<and>
   cardTotal (exampleGame\<lparr>whoseTurn := 1,
          players := (players exampleGame)[0 :=
            \<lparr>cash = 2, influence = [\<lparr>role = ''duke'', revealed = False\<rparr>,
                                     \<lparr>role = ''captain'', revealed = True\<rparr>]\<rparr>]\<rparr>) =
     cardTotal (st_context (initialState exampleGame)) \<and>
   cardTotal (st_context (initialState exampleGame)) = cardTotal exampleGame"
  using card_total_invariant [OF run_lost_challenge [of "\<lambda>s. 0"], of exampleGame]
    run_lost_challenge [of "\<lambda>s. 0"]
  by simp

section \<open>The challenge protocol\<close>

text \<open>
  C4. Settling in \<open>ExecRevealOnChallenge\<close> (its entry action \<^verbatim>\<open>revealInfluence\<close> has run)
  branches in the listed order. The challenge was incorrect when \<^verbatim>\<open>isBlockedBy\<close> holds of
  the current action and the revealed role if a blocker is set, and when
  \<^verbatim>\<open>ifRoleAllowsAction\<close> holds of the revealed role and the current action otherwise; then
  the machine goes to \<open>ChallengeIncorrect\<close>. Otherwise it goes to \<open>FinishAction\<close> if a
  blocker is set, and to \<open>EndOfTurn\<close> if not.
\<close>

theorem ExecRevealOnChallenge_branches:
  "settle ru ExecRevealOnChallenge c =
     (case (if blocker c \<noteq> None then isBlockedBy (currentAction c) (revealedRole c)
            else ifRoleAllowsAction (revealedRole c) (currentAction c)) of
        Inl r \<Rightarrow> Inl (GuardError ExecRevealOnChallenge NULL_EVENT r)
      | Inr incorrect \<Rightarrow>
          follow ru (if incorrect then ChallengeIncorrect
                     else if blocker c \<noteq> None then FinishAction
                     else EndOfTurn) [] c nullEvent)"
  by (auto simp: settle_at ifChallengeIncorrect_def ifActionWasBlocked_def split: sum.splits)


theorem ExecRevealOnChallenge_branches_witness:
  "settle (\<lambda>s. 0) ExecRevealOnChallenge
     (exampleGame\<lparr>currentAction := Some ''tax'', revealedRole := Some ''captain''\<rparr>) =
   follow (\<lambda>s. 0) EndOfTurn []
     (exampleGame\<lparr>currentAction := Some ''tax'', revealedRole := Some ''captain''\<rparr>) nullEvent"
  using ExecRevealOnChallenge_branches [of "\<lambda>s. 0"
      "exampleGame\<lparr>currentAction := Some ''tax'', revealedRole := Some ''captain''\<rparr>"]
  by (simp add: exampleGame_def ifRoleAllowsAction_def getRequiredRoles_def lookupAction_def
      GameDef_actions_def no_metadata_def)

subsection \<open>Auto-reveal\<close>

lemma sole_unrevealed_list:
  assumes "length (filter (\<lambda>x. \<not> revealed x) xs) = 1"
  shows "\<exists>r i. filter (\<lambda>x. \<not> revealed x) xs = [\<lparr>role = r, revealed = False\<rparr>] \<and>
     List.find (\<lambda>c. \<not> revealed c) xs = Some \<lparr>role = r, revealed = False\<rparr> \<and>
     findIndex (\<lambda>c. c = \<lparr>role = r, revealed = False\<rparr>) xs = Some i \<and>
     filter (\<lambda>x. \<not> revealed x) (xs[i := (xs ! i)\<lparr>revealed := True\<rparr>]) = [] \<and>
     map role (xs[i := (xs ! i)\<lparr>revealed := True\<rparr>]) = map role xs"
  using assms
proof (induction xs)
  case Nil
  then show ?case by simp
next
  case (Cons x xs)
  show ?case
  proof (cases "revealed x")
    case True
    with Cons.prems have "length (filter (\<lambda>x. \<not> revealed x) xs) = 1" by simp
    from Cons.IH [OF this] obtain r i where
      h: "filter (\<lambda>x. \<not> revealed x) xs = [\<lparr>role = r, revealed = False\<rparr>]"
         "List.find (\<lambda>c. \<not> revealed c) xs = Some \<lparr>role = r, revealed = False\<rparr>"
         "findIndex (\<lambda>c. c = \<lparr>role = r, revealed = False\<rparr>) xs = Some i"
         "filter (\<lambda>x. \<not> revealed x) (xs[i := (xs ! i)\<lparr>revealed := True\<rparr>]) = []"
         "map role (xs[i := (xs ! i)\<lparr>revealed := True\<rparr>]) = map role xs"
      by blast
    from True have ne: "x \<noteq> \<lparr>role = r, revealed = False\<rparr>" by auto
    show ?thesis
      by (rule exI [of _ r], rule exI [of _ "Suc i"]) (use True h ne in simp)
  next
    case False
    with Cons.prems have e: "filter (\<lambda>x. \<not> revealed x) xs = []" by simp
    from False have x: "x = \<lparr>role = role x, revealed = False\<rparr>" by (cases x) simp
    show ?thesis
      by (rule exI [of _ "role x"], rule exI [of _ 0]) (use False e x in auto)
  qed
qed

lemma sole_unrevealed:
  assumes "Player_countInf p = 1"
  shows "\<exists>r p'. filter (\<lambda>x. \<not> revealed x) (influence p) = [\<lparr>role = r, revealed = False\<rparr>] \<and>
     Player_getFirstRole p = Some r \<and>
     Player_revealRole r p = Inr p' \<and> Player_countInf p' = 0 \<and> cash p' = cash p \<and>
     map role (influence p') = map role (influence p)"
proof -
  from assms have "length (filter (\<lambda>x. \<not> revealed x) (influence p)) = 1"
    by (simp add: Player_countInf_def)
  from sole_unrevealed_list [OF this] obtain r i where
    h: "filter (\<lambda>x. \<not> revealed x) (influence p) = [\<lparr>role = r, revealed = False\<rparr>]"
       "List.find (\<lambda>c. \<not> revealed c) (influence p) = Some \<lparr>role = r, revealed = False\<rparr>"
       "findIndex (\<lambda>c. c = \<lparr>role = r, revealed = False\<rparr>) (influence p) = Some i"
       "filter (\<lambda>x. \<not> revealed x) ((influence p)[i := (influence p ! i)\<lparr>revealed := True\<rparr>]) = []"
       "map role ((influence p)[i := (influence p ! i)\<lparr>revealed := True\<rparr>]) = map role (influence p)"
    by blast
  show ?thesis
    by (rule exI [of _ r],
        rule exI [of _ "p\<lparr>influence := (influence p)[i := (influence p ! i)\<lparr>revealed := True\<rparr>]\<rparr>"])
      (use h in \<open>simp add: Player_getFirstRole_def Player_revealRole_def Player_countInf_def\<close>)
qed

text \<open>
  C5. In each of \<open>Challenge\<close>, \<open>ChallengeIncorrect\<close> and \<open>RevealOnAction\<close>, when the player
  recorded as revealer has exactly one unrevealed influence, the machine does not rest: it
  takes the eventless transition, on which \<^verbatim>\<open>revealInfluence\<close> runs with the null event, and
  goes on settling from the target. The role revealed is the player's only unrevealed
  role, and the player is left with none.
\<close>

theorem auto_reveal:
  assumes st: "st = Challenge \<or> st = ChallengeIncorrect \<or> st = RevealOnAction"
    and v: "viewPlayer (revealer c) c = Some p"
    and one: "Player_countInf p = 1"
  shows "\<exists>r i p' c'.
     revealer c = Some i \<and>
     filter (\<lambda>x. \<not> revealed x) (influence p) = [\<lparr>role = r, revealed = False\<rparr>] \<and>
     Player_revealRole r p = Inr p' \<and> Player_countInf p' = 0 \<and>
     c' = c\<lparr>players := (players c)[nat i := p'], revealedRole := Some r\<rparr> \<and>
     revealInfluence c nullEvent = Inr c' \<and>
     settle ru st c =
       (case settle ru (case st of Challenge \<Rightarrow> ExecRevealOnChallenge
                        | ChallengeIncorrect \<Rightarrow> ExecCounterReveal | _ \<Rightarrow> EndOfTurn) c' of
          Inl x \<Rightarrow> Inl x
        | Inr (st', c'', acts) \<Rightarrow> Inr (st', c'', RevealInfluence # acts))"
proof -
  from v obtain i where i: "revealer c = Some i" "0 \<le> i" "i < int (length (players c))"
    "p = players c ! nat i"
    by (auto simp: viewPlayer_def split: option.splits if_splits)
  from sole_unrevealed [OF one] obtain r p' where
    h: "filter (\<lambda>x. \<not> revealed x) (influence p) = [\<lparr>role = r, revealed = False\<rparr>]"
       "Player_getFirstRole p = Some r" "Player_revealRole r p = Inr p'" "Player_countInf p' = 0"
    by blast
  define c' where "c' = c\<lparr>players := (players c)[nat i := p'], revealedRole := Some r\<rparr>"
  have ri: "revealInfluence c nullEvent = Inr c'"
    using v i h by (simp add: revealInfluence_def nullEvent_def overPlayer_def c'_def)
  have ar: "ifAutoReveal c = Inr True"
    using v one by (simp add: ifAutoReveal_def Game_playerHasNInf_def Player_hasNInf_def)
  have "settle ru st c =
       (case settle ru (case st of Challenge \<Rightarrow> ExecRevealOnChallenge
                        | ChallengeIncorrect \<Rightarrow> ExecCounterReveal | _ \<Rightarrow> EndOfTurn) c' of
          Inl x \<Rightarrow> Inl x
        | Inr (st', c'', acts) \<Rightarrow> Inr (st', c'', RevealInfluence # acts))"
    using st ar ri
    by (elim disjE)
      (simp_all add: settle_unfold [of ru Challenge c] settle_unfold [of ru ChallengeIncorrect c]
        settle_unfold [of ru RevealOnAction c] follow_def split: sum.splits)
  with i(1) h ri c'_def show ?thesis by blast
qed



theorem auto_reveal_witness:
  "viewPlayer (revealer (oneCardGame\<lparr>revealer := Some 1\<rparr>)) (oneCardGame\<lparr>revealer := Some 1\<rparr>) =
     Some \<lparr>cash = 3, influence = [\<lparr>role = ''captain'', revealed = True\<rparr>,
                                  \<lparr>role = ''duke'', revealed = False\<rparr>]\<rparr> \<and>
   Player_countInf \<lparr>cash = 3, influence = [\<lparr>role = ''captain'', revealed = True\<rparr>,
                                           \<lparr>role = ''duke'', revealed = False\<rparr>]\<rparr> = 1 \<and>
   (\<exists>c'. revealInfluence (oneCardGame\<lparr>revealer := Some 1\<rparr>) nullEvent = Inr c' \<and>
      revealedRole c' = Some ''duke'')"
proof -
  let ?c = "oneCardGame\<lparr>revealer := Some 1\<rparr>"
  let ?p = "\<lparr>cash = 3, influence = [\<lparr>role = ''captain'', revealed = True\<rparr>,
                                    \<lparr>role = ''duke'', revealed = False\<rparr>]\<rparr>"
  have v: "viewPlayer (revealer ?c) ?c = Some ?p"
    by (simp add: oneCardGame_def exampleGame_def viewPlayer_def)
  have one: "Player_countInf ?p = 1" by (simp add: Player_countInf_def)
  from auto_reveal [of Challenge ?c ?p "\<lambda>s. 0", OF disjI1 [OF refl] v one]
  obtain r i p' c' where
    f: "filter (\<lambda>x. \<not> revealed x) (influence ?p) = [\<lparr>role = r, revealed = False\<rparr>]" and
    c': "c' = ?c\<lparr>players := (players ?c)[nat i := p'], revealedRole := Some r\<rparr>" and
    ri: "revealInfluence ?c nullEvent = Inr c'"
    by blast
  from f have "r = ''duke''" by simp
  with c' ri have "revealInfluence ?c nullEvent = Inr c' \<and> revealedRole c' = Some ''duke''"
    by simp
  with v one show ?thesis by blast
qed

section \<open>The guards of the handlers\<close>

text \<open>
  Every handler of the machine is guarded by an \<^verbatim>\<open>assert...\<close> function. Such a guard
  returns \<^verbatim>\<open>true\<close> or throws; it never returns \<^verbatim>\<open>false\<close>. What it throws is one of its
  own messages, or a \<^verbatim>\<open>TypeError\<close> where the current action is not in the rulebook.
\<close>

lemma on_not_OTHER: "GameMachine_on st OTHER = None"
  by (cases st) simp_all

lemma handler_guards:
  "GameMachine_on st et = Some (g, t, a) \<Longrightarrow>
   g = AssertCanStartAction \<or> g = AssertCanBlock \<or> g = AssertCanChallenge \<or>
   g = AssertValidOpponent \<or> g = AssertCurrentPlayer \<or> g = AssertCanReveal"
  by (cases st; cases et) auto

lemma lookupAction_valid: "isValidAction a \<Longrightarrow> lookupAction (Some a) \<noteq> None"
  by (auto simp: isValidAction_def lookupAction_def split: option.splits dest: map_of_eq_None_iff [THEN iffD1])

lemma isValidPlayerIdx_view: "isValidPlayerIdx c idx \<Longrightarrow> viewPlayer idx c \<noteq> None"
  by (auto simp: isValidPlayerIdx_def viewPlayer_def split: option.splits)

lemma assertValidPlayer_verdict:
  "assertValidPlayer c e = Inr True \<and> isValidPlayerIdx c (ev_player e) \<or>
   (\<exists>r. assertValidPlayer c e = Inl r \<and> isIllegalEvent r)"
  by (simp add: assertValidPlayer_def)

lemma assertValidOpponent_verdict:
  "assertValidOpponent c e = Inr True \<or> (\<exists>r. assertValidOpponent c e = Inl r \<and> isIllegalEvent r)"
  using assertValidPlayer_verdict [of c e]
  by (auto simp: assertValidOpponent_def)

lemma assertCurrentPlayer_verdict:
  "assertCurrentPlayer c e = Inr True \<or> (\<exists>r. assertCurrentPlayer c e = Inl r \<and> isIllegalEvent r)"
  using assertValidPlayer_verdict [of c e]
  by (auto simp: assertCurrentPlayer_def)

lemma assertCanStartAction_verdict:
  "assertCanStartAction c e = Inr True \<or> (\<exists>r. assertCanStartAction c e = Inl r \<and> isIllegalEvent r)"
proof -
  from assertValidPlayer_verdict [of c e] show ?thesis
  proof (elim disjE conjE exE)
    fix r assume "assertValidPlayer c e = Inl r" "isIllegalEvent r"
    then show ?thesis by (simp add: assertCanStartAction_def)
  next
    assume v: "assertValidPlayer c e = Inr True" and i: "isValidPlayerIdx c (ev_player e)"
    show ?thesis
    proof (cases "ev_action e")
      case None
      with v show ?thesis by (simp add: assertCanStartAction_def)
    next
      case (Some a)
      show ?thesis
      proof (cases "isValidAction a")
        case False
        with v Some show ?thesis by (simp add: assertCanStartAction_def)
      next
        case True
        from lookupAction_valid [OF True] obtain d where d: "lookupAction (Some a) = Some d" by auto
        from isValidPlayerIdx_view [OF i] obtain p where p: "viewPlayer (ev_player e) c = Some p" by auto
        from v Some True d p show ?thesis
          by (cases "(case act_cost d of None \<Rightarrow> 0 | Some n \<Rightarrow> n) \<le> cash p")
            (auto simp: assertCanStartAction_def isTargeted_def Game_playerCanAffordAction_def getCost_def)
      qed
    qed
  qed
qed

lemma assertCanReveal_verdict:
  "assertCanReveal c e = Inr True \<or> (\<exists>r. assertCanReveal c e = Inl r \<and> isIllegalEvent r)"
proof -
  from assertValidPlayer_verdict [of c e] show ?thesis
  proof (elim disjE conjE exE)
    fix r assume "assertValidPlayer c e = Inl r" "isIllegalEvent r"
    then show ?thesis by (simp add: assertCanReveal_def)
  next
    assume v: "assertValidPlayer c e = Inr True" and i: "isValidPlayerIdx c (ev_player e)"
    from isValidPlayerIdx_view [OF i] obtain p where p: "viewPlayer (ev_player e) c = Some p" by auto
    from v p show ?thesis
      by (auto simp: assertCanReveal_def Game_playerHasRole_def split: option.splits)
  qed
qed

lemma assertCanBlock_verdict:
  "assertCanBlock c e = Inr True \<or>
   (\<exists>r. assertCanBlock c e = Inl r \<and>
      (isIllegalEvent r \<or> r = TypeError \<and> lookupAction (currentAction c) = None))"
  using assertValidOpponent_verdict [of c e]
  by (auto simp: assertCanBlock_def isBlockedBy_def getBlockingRoles_def split: option.splits)

lemma assertCanChallenge_verdict:
  "assertCanChallenge c e = Inr True \<or>
   (\<exists>r. assertCanChallenge c e = Inl r \<and>
      (isIllegalEvent r \<or> r = TypeError \<and> lookupAction (currentAction c) = None))"
  using assertValidOpponent_verdict [of c e] assertValidPlayer_verdict [of c e]
  by (auto simp: assertCanChallenge_def isRoleRequired_def getRequiredRoles_def split: option.splits)

lemma handler_guard_verdict:
  assumes "GameMachine_on st et = Some (g, t, a)"
  shows "evalGuard g c e = Inr True \<or>
   (\<exists>r. evalGuard g c e = Inl r \<and>
      (isIllegalEvent r \<or> r = TypeError \<and> lookupAction (currentAction c) = None))"
  using handler_guards [OF assms] assertCanStartAction_verdict [of c e] assertCanBlock_verdict [of c e]
    assertCanChallenge_verdict [of c e] assertValidOpponent_verdict [of c e]
    assertCurrentPlayer_verdict [of c e] assertCanReveal_verdict [of c e]
  by (elim disjE) auto

section \<open>What the actions keep\<close>

lemma netCash_append: "netCash n g (xs @ ys) = netCash n g xs + netCash n g ys"
  by (induction n g xs rule: netCash.induct) auto

lemma netCash_count:
  "netCash n g as = g * int (count_list as ApplyAction) - n * int (count_list as PayActionCost)"
  by (induction n g as rule: netCash.induct) (auto simp: algebra_simps)

text \<open>What the player functions keep.\<close>

lemma revealRole_cash: "Player_revealRole r p = Inr p' \<Longrightarrow> cash p' = cash p"
  by (auto simp: Player_revealRole_def split: option.splits)

lemma unrevealRole_cash: "Player_unrevealRole r p = Inr p' \<Longrightarrow> cash p' = cash p"
  by (auto simp: Player_unrevealRole_def split: option.splits)

lemma swapRole_cash: "Player_swapRole r r' p = Inr p' \<Longrightarrow> cash p' = cash p"
  by (auto simp: Player_swapRole_def split: option.splits)

lemma map_update_id: "(map f xs)[i := f (xs ! i)] = map f xs"
  by (metis list_update_id map_update)

lemma map_update_same: "f y = f (xs ! i) \<Longrightarrow> map f (xs[i := y]) = map f xs"
  by (simp add: map_update map_update_id)

lemma overPlayer_frame:
  assumes "overPlayer idx f c = Inr c'" and "\<And>p p'. f p = Inr p' \<Longrightarrow> cash p' = cash p"
  shows "map cash (players c') = map cash (players c) \<and> length (players c') = length (players c) \<and>
    whoseTurn c' = whoseTurn c \<and> currentAction c' = currentAction c \<and> deck c' = deck c \<and>
    seed c' = seed c \<and> gdef c' = gdef c"
  using assms
  by (auto simp: overPlayer_def split: option.splits if_splits sum.splits intro!: map_update_same)

lemma revealInfluence_frame:
  assumes "revealInfluence c e = Inr c'"
  shows "map cash (players c') = map cash (players c) \<and> length (players c') = length (players c) \<and>
    whoseTurn c' = whoseTurn c \<and> currentAction c' = currentAction c \<and> deck c' = deck c \<and>
    seed c' = seed c \<and> gdef c' = gdef c"
proof -
  from assms obtain r c1 where 1: "overPlayer (revealer c) (Player_revealRole r) c = Inr c1"
    and 2: "c' = c1\<lparr>revealedRole := Some r\<rparr>"
    by (auto simp: revealInfluence_def split: option.splits sum.splits)
  from overPlayer_frame [OF 1 revealRole_cash] 2 show ?thesis by simp
qed

lemma replaceInfluence_frame:
  assumes "replaceInfluence ru c = Inr c'"
  shows "map cash (players c') = map cash (players c) \<and> length (players c') = length (players c) \<and>
    whoseTurn c' = whoseTurn c \<and> currentAction c' = currentAction c \<and>
    length (deck c') = length (deck c) \<and>
    seed c' = (Rand_nextSeed ru ^^ length (deck c)) (seed c) \<and> gdef c' = gdef c"
proof -
  from assms obtain r c1 where 1: "overPlayer (revealer c) (Player_unrevealRole r) c = Inr c1"
    and 2: "redealPlayerRole ru (revealer c) r c1 = Inr c'"
    by (auto simp: replaceInfluence_def split: option.splits sum.splits)
  note f1 = overPlayer_frame [OF 1 unrevealRole_cash]
  obtain d s where sh: "shuffle ru (r # deck c1) (seed c1) = (d, s)"
    by (cases "shuffle ru (r # deck c1) (seed c1)")
  have len: "length d = Suc (length (deck c1))"
    using shuffle_length [of ru "r # deck c1" "seed c1"] sh by simp
  have sd: "s = (Rand_nextSeed ru ^^ length (deck c1)) (seed c1)"
    using shuffle_seed [of ru "r # deck c1" "seed c1"] sh by simp
  from len obtain x rest where d: "d = x # rest" by (cases d) auto
  from 2 sh d have 3: "overPlayer (revealer c) (Player_swapRole r x) (c1\<lparr>seed := s, deck := rest\<rparr>) = Inr c'"
    by (simp add: redealPlayerRole_def Game_popDeck_def Game_shuffleDeck_def Game_pushDeck_def)
  from overPlayer_frame [OF 3 swapRole_cash] f1 len d sd show ?thesis by simp
qed

lemma overActivePlayer_cash:
  "map cash (players (overActivePlayer (Player_adjustCash n) c)) =
     (map cash (players c))[whoseTurn c := cash (players c ! whoseTurn c) + n]"
  by (simp add: overActivePlayer_def Player_adjustCash_def map_update)

lemma execAct_frame:
  assumes "execAct ru a c e = Inr c'"
  shows "length (players c') = length (players c) \<and> gdef c' = gdef c \<and>
    length (deck c') = length (deck c) \<and>
    (a \<noteq> AdvanceTurn \<longrightarrow> whoseTurn c' = whoseTurn c) \<and>
    (a \<noteq> SetCurrentAction \<longrightarrow> a \<noteq> ResetContext \<longrightarrow> currentAction c' = currentAction c) \<and>
    seed c' = (if a = ReplaceInfluence then (Rand_nextSeed ru ^^ length (deck c)) (seed c) else seed c) \<and>
    map cash (players c') =
      (map cash (players c))[whoseTurn c := cash (players c ! whoseTurn c) +
         netCash (costOf (currentAction c)) (gainOf (currentAction c)) [a]]"
proof (cases a)
  case PayActionCost
  with assms show ?thesis
    by (auto simp: payActionCost_def costOf_def overActivePlayer_cash split: sum.splits)
      (simp_all add: overActivePlayer_def)
next
  case ApplyAction
  with assms show ?thesis
    by (auto simp: applyAction_def Game_applyAction_def gainOf_def overActivePlayer_cash
        Game_applyRevealAction_def map_update_id split: option.splits if_splits)
      (simp_all add: overActivePlayer_def)
next
  case RevealInfluence
  with assms revealInfluence_frame [of c e c'] show ?thesis by (simp add: map_update_id)
next
  case ReplaceInfluence
  with assms replaceInfluence_frame [of ru c c'] show ?thesis by (simp add: map_update_id)
qed (use assms in \<open>auto simp: map_update_id resetContext_def setCurrentAction_def setBlocker_def
      setChallenger_def setRevealer_def clearRevealer_def advanceTurn_def\<close>)


lemma funpow_funpow: "(f ^^ m) ((f ^^ n) x) = (f ^^ (m + n)) x"
  by (simp add: funpow_add)

lemma execActs_frame:
  assumes "execActs ru as c e = Inr c'"
  shows "length (players c') = length (players c) \<and> gdef c' = gdef c \<and>
    length (deck c') = length (deck c) \<and>
    seed c' = (Rand_nextSeed ru ^^ (length (deck c) * count_list as ReplaceInfluence)) (seed c)"
  using assms
proof (induction as arbitrary: c)
  case Nil
  then show ?case by simp
next
  case (Cons a as)
  from Cons.prems obtain c1 where 1: "execAct ru a c e = Inr c1" and 2: "execActs ru as c1 e = Inr c'"
    by (auto split: sum.splits)
  note f = execAct_frame [OF 1] and i = Cons.IH [OF 2]
  have "seed c' = (Rand_nextSeed ru ^^ (length (deck c) * count_list as ReplaceInfluence)) (seed c1)"
    using f i by simp
  also have "\<dots> = (Rand_nextSeed ru ^^ (length (deck c) * count_list (a # as) ReplaceInfluence)) (seed c)"
    using f by (simp add: funpow_funpow add.commute)
  finally show ?case using f i by simp
qed

lemma execActs_inner:
  assumes "execActs ru as c e = Inr c'" and "innerActs as"
  shows "whoseTurn c' = whoseTurn c \<and> currentAction c' = currentAction c \<and>
    (whoseTurn c < length (players c) \<longrightarrow>
     map cash (players c') =
       (map cash (players c))[whoseTurn c := cash (players c ! whoseTurn c) +
          netCash (costOf (currentAction c)) (gainOf (currentAction c)) as])"
  using assms
proof (induction as arbitrary: c)
  case Nil
  then show ?case by (simp add: map_update_id)
next
  case (Cons a as)
  from Cons.prems obtain c1 where 1: "execAct ru a c e = Inr c1" and 2: "execActs ru as c1 e = Inr c'"
    by (auto split: sum.splits)
  from Cons.prems(2) have ia: "a \<noteq> AdvanceTurn" "a \<noteq> ResetContext" "a \<noteq> SetCurrentAction"
    and ias: "innerActs as" by (auto simp: innerActs_def)
  note f = execAct_frame [OF 1] and i = Cons.IH [OF 2 ias]
  from f ia have w: "whoseTurn c1 = whoseTurn c" and ca: "currentAction c1 = currentAction c" by simp_all
  show ?case
  proof (intro conjI impI)
    show "whoseTurn c' = whoseTurn c" using i w by simp
    show "currentAction c' = currentAction c" using i ca by simp
    assume lt: "whoseTurn c < length (players c)"
    let ?w = "whoseTurn c" and ?n = "costOf (currentAction c)" and ?g = "gainOf (currentAction c)"
    let ?v = "map cash (players c)"
    have v1: "map cash (players c1) = ?v[?w := cash (players c ! ?w) + netCash ?n ?g [a]]"
      using f by simp
    have lt1: "?w < length (players c1)" using f lt by simp
    have "cash (players c1 ! ?w) = map cash (players c1) ! ?w" using lt1 by simp
    also have "\<dots> = cash (players c ! ?w) + netCash ?n ?g [a]" using v1 lt by simp
    finally have cw: "cash (players c1 ! ?w) = cash (players c ! ?w) + netCash ?n ?g [a]" .
    from i w ca lt1 have "map cash (players c') =
        (map cash (players c1))[?w := cash (players c1 ! ?w) + netCash ?n ?g as]" by simp
    with v1 cw have "map cash (players c') =
        ?v[?w := cash (players c ! ?w) + netCash ?n ?g [a] + netCash ?n ?g as]" by simp
    moreover have "netCash ?n ?g (a # as) = netCash ?n ?g [a] + netCash ?n ?g as"
      using netCash_append [of ?n ?g "[a]" as] by simp
    ultimately show "map cash (players c') =
        ?v[?w := cash (players c ! ?w) + netCash ?n ?g (a # as)]" by (simp add: add.assoc)
  qed
qed

text \<open>
  The edges of the machine: the one from \<open>EndOfTurn\<close> advances the turn, the handler of
  \<open>ACTION\<close> in \<open>StartOfTurn\<close> sets the action, and all others carry only actions that
  do neither.
\<close>

lemma always_edge_inner:
  assumes "firstEnabled (GameMachine_always st) c = Inr (Some (t, a))"
  shows "(st = EndOfTurn \<and> t = StartOfTurn \<and> a = [AdvanceTurn]) \<or>
    (t \<noteq> StartOfTurn \<and> innerActs (a @ GameMachine_entry t))"
  using firstEnabled_mem [OF assms] by (cases st) (auto simp: innerActs_def)

lemma on_edge_inner:
  assumes "GameMachine_on st et = Some (g, t, a)"
  shows "(st = StartOfTurn \<and> et = ACTION \<and> g = AssertCanStartAction \<and> t = WaitForResponse \<and> a = []) \<or>
    (st \<noteq> StartOfTurn \<and> t \<noteq> StartOfTurn \<and> innerActs (a @ GameMachine_entry t))"
  using assms by (cases st; cases et) (auto simp: innerActs_def)

lemma settle_StartOfTurn: "settle ru StartOfTurn c = Inr (StartOfTurn, c, [])"
  by (simp add: settle_at)

lemma settle_frame:
  assumes "settle ru st c = Inr (st', c', acts)"
  shows "length (players c') = length (players c) \<and> gdef c' = gdef c \<and>
    length (deck c') = length (deck c) \<and>
    seed c' = (Rand_nextSeed ru ^^ (length (deck c) * count_list acts ReplaceInfluence)) (seed c)"
proof (rule settle_induct_rule [OF assms, where P = "\<lambda>st c st' c' acts.
    length (players c') = length (players c) \<and> gdef c' = gdef c \<and>
    length (deck c') = length (deck c) \<and>
    seed c' = (Rand_nextSeed ru ^^ (length (deck c) * count_list acts ReplaceInfluence)) (seed c)"])
  fix st c
  show "length (players c) = length (players c) \<and> gdef c = gdef c \<and>
    length (deck c) = length (deck c) \<and>
    seed c = (Rand_nextSeed ru ^^ (length (deck c) * count_list [] ReplaceInfluence)) (seed c)"
    by simp
next
  fix st c t a c1 acts1
  assume x: "execActs ru (a @ GameMachine_entry t) c nullEvent = Inr c1"
    and ih: "length (players c') = length (players c1) \<and> gdef c' = gdef c1 \<and>
      length (deck c') = length (deck c1) \<and>
      seed c' = (Rand_nextSeed ru ^^ (length (deck c1) * count_list acts1 ReplaceInfluence)) (seed c1)"
  note f = execActs_frame [OF x]
  have "seed c' = (Rand_nextSeed ru ^^ (length (deck c) * count_list acts1 ReplaceInfluence)) (seed c1)"
    using f ih by simp
  also have "\<dots> = (Rand_nextSeed ru ^^ (length (deck c) *
      count_list (a @ GameMachine_entry t @ acts1) ReplaceInfluence)) (seed c)"
    using f by (simp add: funpow_funpow distrib_left ac_simps)
  finally show "length (players c') = length (players c) \<and> gdef c' = gdef c \<and>
    length (deck c') = length (deck c) \<and>
    seed c' = (Rand_nextSeed ru ^^ (length (deck c) *
      count_list (a @ GameMachine_entry t @ acts1) ReplaceInfluence)) (seed c)"
    using f ih by simp
qed

lemma settle_turn:
  assumes "settle ru st c = Inr (st', c', acts)"
  shows "(st' \<noteq> StartOfTurn \<longrightarrow> whoseTurn c' = whoseTurn c \<and> currentAction c' = currentAction c) \<and>
    (whoseTurn c < length (players c) \<longrightarrow>
     map cash (players c') =
       (map cash (players c))[whoseTurn c := cash (players c ! whoseTurn c) +
          netCash (costOf (currentAction c)) (gainOf (currentAction c)) acts])"
proof (rule settle_induct_rule [OF assms, where P = "\<lambda>st c st' c' acts.
    (st' \<noteq> StartOfTurn \<longrightarrow> whoseTurn c' = whoseTurn c \<and> currentAction c' = currentAction c) \<and>
    (whoseTurn c < length (players c) \<longrightarrow>
     map cash (players c') =
       (map cash (players c))[whoseTurn c := cash (players c ! whoseTurn c) +
          netCash (costOf (currentAction c)) (gainOf (currentAction c)) acts])"])
  fix st c
  show "(st \<noteq> StartOfTurn \<longrightarrow> whoseTurn c = whoseTurn c \<and> currentAction c = currentAction c) \<and>
    (whoseTurn c < length (players c) \<longrightarrow>
     map cash (players c) =
       (map cash (players c))[whoseTurn c := cash (players c ! whoseTurn c) +
          netCash (costOf (currentAction c)) (gainOf (currentAction c)) []])"
    by (simp add: map_update_id)
next
  fix st c t a c1 acts1
  assume f: "firstEnabled (GameMachine_always st) c = Inr (Some (t, a))"
    and x: "execActs ru (a @ GameMachine_entry t) c nullEvent = Inr c1"
    and s: "settle ru t c1 = Inr (st', c', acts1)"
    and ih: "(st' \<noteq> StartOfTurn \<longrightarrow> whoseTurn c' = whoseTurn c1 \<and> currentAction c' = currentAction c1) \<and>
      (whoseTurn c1 < length (players c1) \<longrightarrow>
       map cash (players c') =
         (map cash (players c1))[whoseTurn c1 := cash (players c1 ! whoseTurn c1) +
            netCash (costOf (currentAction c1)) (gainOf (currentAction c1)) acts1])"
  let ?A = "a @ GameMachine_entry t"
  let ?w = "whoseTurn c" and ?n = "costOf (currentAction c)" and ?g = "gainOf (currentAction c)"
  from always_edge_inner [OF f]
  show "(st' \<noteq> StartOfTurn \<longrightarrow> whoseTurn c' = whoseTurn c \<and> currentAction c' = currentAction c) \<and>
    (whoseTurn c < length (players c) \<longrightarrow>
     map cash (players c') =
       (map cash (players c))[?w := cash (players c ! ?w) + netCash ?n ?g (a @ GameMachine_entry t @ acts1)])"
  proof (elim disjE conjE)
    assume e: "st = EndOfTurn" "t = StartOfTurn" "a = [AdvanceTurn]"
    with s have r: "st' = StartOfTurn" "c' = c1" "acts1 = []" by (simp_all add: settle_StartOfTurn)
    from x e have "c1 = resetContext (advanceTurn c)" by simp
    with r e show ?thesis by (simp add: resetContext_def advanceTurn_def map_update_id)
  next
    assume i: "innerActs ?A"
    note g = execActs_inner [OF x i] and l = execActs_frame [OF x]
    show ?thesis
    proof (intro conjI impI)
      assume "st' \<noteq> StartOfTurn"
      with ih g show "whoseTurn c' = whoseTurn c" "currentAction c' = currentAction c" by simp_all
    next
      assume lt: "?w < length (players c)"
      let ?v = "map cash (players c)"
      from g lt have v1: "map cash (players c1) = ?v[?w := cash (players c ! ?w) + netCash ?n ?g ?A]"
        by simp
      have lt1: "?w < length (players c1)" using l lt by simp
      have "cash (players c1 ! ?w) = map cash (players c1) ! ?w" using lt1 by simp
      also have "\<dots> = cash (players c ! ?w) + netCash ?n ?g ?A" using v1 lt by simp
      finally have cw: "cash (players c1 ! ?w) = cash (players c ! ?w) + netCash ?n ?g ?A" .
      from ih g lt1 have "map cash (players c') =
        (map cash (players c1))[?w := cash (players c1 ! ?w) + netCash ?n ?g acts1]" by simp
      with v1 cw have "map cash (players c') =
        ?v[?w := cash (players c ! ?w) + netCash ?n ?g ?A + netCash ?n ?g acts1]" by simp
      moreover have "netCash ?n ?g (a @ GameMachine_entry t @ acts1) =
          netCash ?n ?g ?A + netCash ?n ?g acts1"
        using netCash_append [of ?n ?g ?A acts1] by simp
      ultimately show "map cash (players c') =
        ?v[?w := cash (players c ! ?w) + netCash ?n ?g (a @ GameMachine_entry t @ acts1)]"
        by (simp add: add.assoc)
    qed
  qed
qed

section \<open>Within a turn\<close>

text \<open>
  From the action that is set in \<open>WaitForResponse\<close> to the end of the turn the active
  player and the current action stay, and the cash changes only for the active player, by
  the payments and the gains among the actions executed.
\<close>

lemma cash_compose:
  fixes v :: "int list"
  assumes "v1 = v[w := x + d1]" and "w < length v" and "v2 = v1[w := v1 ! w + d2]"
  shows "v2 = v[w := x + (d1 + d2)]"
proof -
  have "x + d1 + d2 = x + (d1 + d2)" by (simp add: add.assoc)
  with assms show ?thesis by simp
qed

lemma settle_noSet:
  assumes "settle ru st c = Inr (st', c', acts)"
  shows "SetCurrentAction \<notin> set acts"
proof (rule settle_induct_rule [OF assms, where P = "\<lambda>st c st' c' acts. SetCurrentAction \<notin> set acts"])
  fix st c
  show "SetCurrentAction \<notin> set []" by simp
next
  fix st c t a c1 acts1
  assume f: "firstEnabled (GameMachine_always st) c = Inr (Some (t, a))"
    and ih: "SetCurrentAction \<notin> set acts1"
  from always_edge_inner [OF f] ih
  show "SetCurrentAction \<notin> set (a @ GameMachine_entry t @ acts1)"
    by (auto simp: innerActs_def)
qed

lemma follow_turn:
  assumes f: "follow ru t a c e = Inr (st', c', acts)" and i: "innerActs (a @ GameMachine_entry t)"
  shows "SetCurrentAction \<notin> set acts \<and>
    (st' \<noteq> StartOfTurn \<longrightarrow> whoseTurn c' = whoseTurn c \<and> currentAction c' = currentAction c) \<and>
    (whoseTurn c < length (players c) \<longrightarrow>
     map cash (players c') =
       (map cash (players c))[whoseTurn c := cash (players c ! whoseTurn c) +
          netCash (costOf (currentAction c)) (gainOf (currentAction c)) acts])"
proof -
  from follow_Inr [OF f] obtain c1 acts1 where
    x: "execActs ru (a @ GameMachine_entry t) c e = Inr c1" and
    s: "settle ru t c1 = Inr (st', c', acts1)" and a: "acts = a @ GameMachine_entry t @ acts1"
    by blast
  let ?A = "a @ GameMachine_entry t"
  let ?w = "whoseTurn c" and ?n = "costOf (currentAction c)" and ?g = "gainOf (currentAction c)"
  note g = execActs_inner [OF x i] and l = execActs_frame [OF x] and st = settle_turn [OF s]
    and ns = settle_noSet [OF s]
  show ?thesis
  proof (intro conjI impI)
    show "SetCurrentAction \<notin> set acts" using a i ns by (auto simp: innerActs_def)
  next
    assume "st' \<noteq> StartOfTurn"
    with st g show "whoseTurn c' = whoseTurn c" "currentAction c' = currentAction c" by simp_all
  next
    assume lt: "?w < length (players c)"
    from g lt have v1: "map cash (players c1) = (map cash (players c))[?w := cash (players c ! ?w) + netCash ?n ?g ?A]"
      by simp
    have lt1: "?w < length (players c1)" using l lt by simp
    from st g lt1 have v2: "map cash (players c') =
        (map cash (players c1))[?w := map cash (players c1) ! ?w + netCash ?n ?g acts1]" by simp
    from cash_compose [OF v1 _ v2] lt
    have "map cash (players c') =
        (map cash (players c))[?w := cash (players c ! ?w) + (netCash ?n ?g ?A + netCash ?n ?g acts1)]"
      by simp
    moreover have "netCash ?n ?g acts = netCash ?n ?g ?A + netCash ?n ?g acts1"
      using netCash_append [of ?n ?g ?A acts1] a by simp
    ultimately show "map cash (players c') =
        (map cash (players c))[?w := cash (players c ! ?w) + netCash ?n ?g acts]" by simp
  qed
qed

text \<open>A handler's guard holds whenever the event is accepted: it never returns false.\<close>

lemma macrostep_handler:
  assumes o: "GameMachine_on (st_value s) (ev_type e) = Some (g, t, a)"
    and m: "macrostep ru s e = Inr (st', c', acts)"
  shows "evalGuard g (st_context s) e = Inr True \<and>
    follow ru t a (st_context s) e = Inr (st', c', acts)"
proof -
  from o on_not_OTHER [of "st_value s"] have "ev_type e \<noteq> OTHER" by auto
  with handler_guard_verdict [OF o, of "st_context s" e] o m show ?thesis
    by (auto simp: macrostep_def)
qed

lemma macrostep_nohandler:
  assumes "GameMachine_on (st_value s) (ev_type e) = None"
    and "macrostep ru s e = Inr (st', c', acts)"
  shows "settle ru (st_value s) (st_context s) = Inr (st', c', acts)"
  using assms by (auto simp: macrostep_def split: if_splits)

lemma macrostep_mid:
  assumes m: "macrostep ru s e = Inr (st', c', acts)" and n: "st_value s \<noteq> StartOfTurn"
  shows "SetCurrentAction \<notin> set acts \<and>
    (st' \<noteq> StartOfTurn \<longrightarrow> whoseTurn c' = whoseTurn (st_context s) \<and>
       currentAction c' = currentAction (st_context s)) \<and>
    (whoseTurn (st_context s) < length (players (st_context s)) \<longrightarrow>
     map cash (players c') =
       (map cash (players (st_context s)))[whoseTurn (st_context s) :=
          cash (players (st_context s) ! whoseTurn (st_context s)) +
          netCash (costOf (currentAction (st_context s))) (gainOf (currentAction (st_context s))) acts])"
proof (cases "GameMachine_on (st_value s) (ev_type e)")
  case None
  from macrostep_nohandler [OF None m] have s: "settle ru (st_value s) (st_context s) = Inr (st', c', acts)" .
  from settle_turn [OF s] settle_noSet [OF s] show ?thesis by simp
next
  case (Some h)
  then obtain g t a where o: "GameMachine_on (st_value s) (ev_type e) = Some (g, t, a)"
    by (cases h) auto
  from macrostep_handler [OF o m] have f: "follow ru t a (st_context s) e = Inr (st', c', acts)" by simp
  from on_edge_inner [OF o] n have "innerActs (a @ GameMachine_entry t)" by simp
  from follow_turn [OF f this] show ?thesis .
qed

lemma macrostep_start:
  assumes m: "macrostep ru s e = Inr (st', c', acts)" and n: "st_value s = StartOfTurn"
    and ns: "SetCurrentAction \<notin> set acts"
  shows "st' = StartOfTurn \<and> c' = st_context s \<and> acts = []"
proof (cases "GameMachine_on (st_value s) (ev_type e)")
  case None
  from macrostep_nohandler [OF None m] n show ?thesis by (simp add: settle_StartOfTurn)
next
  case (Some h)
  then obtain g t a where o: "GameMachine_on (st_value s) (ev_type e) = Some (g, t, a)"
    by (cases h) auto
  from macrostep_handler [OF o m] have f: "follow ru t a (st_context s) e = Inr (st', c', acts)" by simp
  from on_edge_inner [OF o] n have "t = WaitForResponse" by simp
  with follow_Inr [OF f] have "SetCurrentAction \<in> set acts" by auto
  with ns show ?thesis by simp
qed

lemma runLog_idle:
  "runLog ru s evs = Inr (s', acts) \<Longrightarrow> st_value s = StartOfTurn \<Longrightarrow>
   SetCurrentAction \<notin> set acts \<Longrightarrow> s' = s \<and> acts = []"
proof (induction evs arbitrary: s acts)
  case Nil
  then show ?case by simp
next
  case (Cons e evs)
  from Cons.prems(1) obtain st1 c1 acts1 acts2 where
    m: "macrostep ru s e = Inr (st1, c1, acts1)" and
    r: "runLog ru \<lparr>st_value = st1, st_context = c1\<rparr> evs = Inr (s', acts2)" and
    a: "acts = acts1 @ acts2"
    by (auto split: sum.splits prod.splits)
  from Cons.prems(3) a have n1: "SetCurrentAction \<notin> set acts1" and n2: "SetCurrentAction \<notin> set acts2"
    by simp_all
  from macrostep_start [OF m Cons.prems(2) n1] have
    e: "\<lparr>st_value = st1, st_context = c1\<rparr> = s" "acts1 = []" using Cons.prems(2) by (cases s, simp)+
  from Cons.IH [of s acts2] r e n2 Cons.prems(2) a show ?case by simp
qed

lemma runLog_mid:
  "runLog ru s evs = Inr (s', acts) \<Longrightarrow> st_value s \<noteq> StartOfTurn \<Longrightarrow>
   SetCurrentAction \<notin> set acts \<Longrightarrow> whoseTurn (st_context s) < length (players (st_context s)) \<Longrightarrow>
   map cash (players (st_context s')) =
     (map cash (players (st_context s)))[whoseTurn (st_context s) :=
        cash (players (st_context s) ! whoseTurn (st_context s)) +
        netCash (costOf (currentAction (st_context s))) (gainOf (currentAction (st_context s))) acts]"
proof (induction evs arbitrary: s acts)
  case Nil
  then show ?case by (simp add: map_update_id)
next
  case (Cons e evs)
  let ?c = "st_context s"
  let ?w = "whoseTurn ?c" and ?n = "costOf (currentAction ?c)" and ?g = "gainOf (currentAction ?c)"
  from Cons.prems(1) obtain st1 c1 acts1 acts2 where
    m: "macrostep ru s e = Inr (st1, c1, acts1)" and
    r: "runLog ru \<lparr>st_value = st1, st_context = c1\<rparr> evs = Inr (s', acts2)" and
    a: "acts = acts1 @ acts2"
    by (auto split: sum.splits prod.splits)
  from Cons.prems(3) a have n2: "SetCurrentAction \<notin> set acts2" by simp
  note mm = macrostep_mid [OF m Cons.prems(2)]
  from mm Cons.prems(4) have v1: "map cash (players c1) =
      (map cash (players ?c))[?w := cash (players ?c ! ?w) + netCash ?n ?g acts1]" by simp
  show ?case
  proof (cases "st1 = StartOfTurn")
    case True
    with runLog_idle [OF r _ n2] have "s' = \<lparr>st_value = st1, st_context = c1\<rparr>" "acts2 = []" by simp_all
    with v1 a show ?thesis by simp
  next
    case False
    with mm have k: "whoseTurn c1 = ?w" "currentAction c1 = currentAction ?c" by simp_all
    from v1 have "length (map cash (players c1)) = length (map cash (players ?c))" by simp
    with Cons.prems(4) have lt1: "?w < length (players c1)" by simp
    from Cons.IH [OF r _ n2] False k lt1 have v2: "map cash (players (st_context s')) =
        (map cash (players c1))[?w := map cash (players c1) ! ?w + netCash ?n ?g acts2]" by simp
    from cash_compose [OF v1 _ v2] Cons.prems(4)
    have "map cash (players (st_context s')) =
        (map cash (players ?c))[?w := cash (players ?c ! ?w) + (netCash ?n ?g acts1 + netCash ?n ?g acts2)]"
      by simp
    with a show ?thesis by (simp add: netCash_append)
  qed
qed

lemma assertCanStartAction_accept:
  assumes "assertCanStartAction c e = Inr b"
  shows "whoseTurn c < length (players c) \<and> (\<exists>n. getCost (ev_action e) = Inr n) \<and>
    (\<exists>a. ev_action e = Some a \<and> isValidAction a)"
  using assms
  by (auto simp: assertCanStartAction_def assertValidPlayer_def isValidPlayerIdx_def
      Game_playerCanAffordAction_def split: sum.splits option.splits if_splits)

section \<open>Rejected events\<close>

text \<open>
  An event with no handler in the current state is looked at by no guard: only the
  eventless transitions of the state are tried.
\<close>

lemma unhandled_event:
  "GameMachine_on (st_value s) (ev_type e) = None \<Longrightarrow> ev_type e \<noteq> OTHER \<Longrightarrow>
   macrostep ru s e = settle ru (st_value s) (st_context s)"
  by (simp add: macrostep_def)

text \<open>In every state but \<open>StartOfTurn\<close> the current action is one of the rulebook.\<close>

lemma macrostep_currentAction:
  assumes m: "macrostep ru s e = Inr (st', c', acts)"
    and j: "st_value s = StartOfTurn \<or> lookupAction (currentAction (st_context s)) \<noteq> None"
  shows "st' = StartOfTurn \<or> lookupAction (currentAction c') \<noteq> None"
proof (cases "st_value s = StartOfTurn")
  case False
  with macrostep_mid [OF m False] j show ?thesis by auto
next
  case True
  show ?thesis
  proof (cases "GameMachine_on (st_value s) (ev_type e)")
    case None
    from macrostep_nohandler [OF None m] True show ?thesis by (simp add: settle_StartOfTurn)
  next
    case (Some h)
    then obtain g t a where o: "GameMachine_on (st_value s) (ev_type e) = Some (g, t, a)"
      by (cases h) auto
    from on_edge_inner [OF o] True have gta: "g = AssertCanStartAction" "t = WaitForResponse" "a = []"
      by simp_all
    from macrostep_handler [OF o m] gta have g: "assertCanStartAction (st_context s) e = Inr True"
      and f: "follow ru WaitForResponse [] (st_context s) e = Inr (st', c', acts)" by simp_all
    from assertCanStartAction_accept [OF g] obtain x where x: "ev_action e = Some x" "isValidAction x"
      by blast
    from follow_Inr [OF f] obtain acts1 where
      st: "settle ru WaitForResponse (setCurrentAction (st_context s) e) = Inr (st', c', acts1)"
      by (auto split: sum.splits)
    from settle_turn [OF st] have "st' \<noteq> StartOfTurn \<longrightarrow> currentAction c' = ev_action e"
      by (simp add: setCurrentAction_def)
    with x lookupAction_valid [OF x(2)] show ?thesis by auto
  qed
qed

lemma run_currentAction:
  "run ru s evs = Inr s' \<Longrightarrow>
   st_value s = StartOfTurn \<or> lookupAction (currentAction (st_context s)) \<noteq> None \<Longrightarrow>
   st_value s' = StartOfTurn \<or> lookupAction (currentAction (st_context s')) \<noteq> None"
proof (induction evs arbitrary: s)
  case Nil
  then show ?case by simp
next
  case (Cons e evs)
  from Cons.prems(1) obtain s1 where t: "transition ru s e = Inr s1" and r: "run ru s1 evs = Inr s'"
    by (auto split: sum.splits)
  from t obtain st1 c1 acts1 where m: "macrostep ru s e = Inr (st1, c1, acts1)"
    and s1: "s1 = \<lparr>st_value = st1, st_context = c1\<rparr>"
    by (auto simp: transition_def split: sum.splits prod.splits)
  from macrostep_currentAction [OF m Cons.prems(2)] s1
  have "st_value s1 = StartOfTurn \<or> lookupAction (currentAction (st_context s1)) \<noteq> None" by simp
  from Cons.IH [OF r this] show ?case .
qed

text \<open>
  C7. When the guard of the handler for an event does not accept it, the guard has thrown:
  it never returns \<^verbatim>\<open>false\<close>, so the event is not passed over as a no-op.
  \<^verbatim>\<open>transition\<close> throws the error that names the state, the event and the guard's
  message, no state is returned, a run stops there, and a caller that catches the error
  holds the state it passed in, unchanged. The message is one of the guards' own
  (\<open>isIllegalEvent\<close>), or a \<^verbatim>\<open>TypeError\<close> of JavaScript when the current action of the
  state is not in the rulebook; in every state reached by events from an initial state it
  is one of the guards' own.
\<close>

theorem guard_rejection:
  assumes o: "GameMachine_on (st_value s) (ev_type e) = Some (g, t, a)"
    and n: "evalGuard g (st_context s) e \<noteq> Inr True"
  shows "\<exists>r. evalGuard g (st_context s) e = Inl r \<and>
    transition ru s e = Inl (GuardError (st_value s) (ev_type e) r) \<and>
    run ru s (e # es) = Inl (GuardError (st_value s) (ev_type e) r) \<and>
    stateAfter ru s e = s \<and>
    (isIllegalEvent r \<or> r = TypeError \<and> lookupAction (currentAction (st_context s)) = None) \<and>
    ((\<exists>c evs. run ru (initialState c) evs = Inr s) \<longrightarrow> isIllegalEvent r)"
proof -
  from handler_guard_verdict [OF o, of "st_context s" e] n obtain r where
    r: "evalGuard g (st_context s) e = Inl r" and
    v: "isIllegalEvent r \<or> r = TypeError \<and> lookupAction (currentAction (st_context s)) = None"
    by blast
  from o on_not_OTHER [of "st_value s"] have "ev_type e \<noteq> OTHER" by auto
  with o r have "macrostep ru s e = Inl (GuardError (st_value s) (ev_type e) r)"
    by (simp add: macrostep_def)
  then have t: "transition ru s e = Inl (GuardError (st_value s) (ev_type e) r)"
    by (simp add: transition_def)
  have i: "isIllegalEvent r" if "run ru (initialState c) evs = Inr s" for c evs
  proof -
    from run_currentAction [OF that]
    have "st_value s = StartOfTurn \<or> lookupAction (currentAction (st_context s)) \<noteq> None"
      by (simp add: initialState_def)
    then show ?thesis
    proof
      assume "lookupAction (currentAction (st_context s)) \<noteq> None"
      with v show ?thesis by simp
    next
      assume "st_value s = StartOfTurn"
      with on_edge_inner [OF o] have "g = AssertCanStartAction" by simp
      with assertCanStartAction_verdict [of "st_context s" e] r show ?thesis by auto
    qed
  qed
  from r t v i show ?thesis by (auto simp: stateAfter_def)
qed

theorem guard_rejection_witness:
  "run (\<lambda>s. 0) (initialState afterDeath) [evAction 2 ''assassinate'' (Some 0)] =
     Inr \<lparr>st_value = WaitForResponse,
          st_context = afterDeath\<lparr>currentAction := Some ''assassinate'', target := Some 0\<rparr>\<rparr> \<and>
   GameMachine_on WaitForResponse (ev_type (evBlock 0 ''duke'')) = Some (AssertCanBlock, Block, [PayActionCost]) \<and>
   evalGuard AssertCanBlock (afterDeath\<lparr>currentAction := Some ''assassinate'', target := Some 0\<rparr>)
     (evBlock 0 ''duke'') = Inl (ActionCannotBeBlockedBy (Some ''assassinate'') ''duke'') \<and>
   transition (\<lambda>s. 0)
     \<lparr>st_value = WaitForResponse,
      st_context = afterDeath\<lparr>currentAction := Some ''assassinate'', target := Some 0\<rparr>\<rparr>
     (evBlock 0 ''duke'') =
     Inl (GuardError WaitForResponse BLOCK (ActionCannotBeBlockedBy (Some ''assassinate'') ''duke'')) \<and>
   stateAfter (\<lambda>s. 0)
     \<lparr>st_value = WaitForResponse,
      st_context = afterDeath\<lparr>currentAction := Some ''assassinate'', target := Some 0\<rparr>\<rparr>
     (evBlock 0 ''duke'') =
     \<lparr>st_value = WaitForResponse,
      st_context = afterDeath\<lparr>currentAction := Some ''assassinate'', target := Some 0\<rparr>\<rparr> \<and>
   isIllegalEvent (ActionCannotBeBlockedBy (Some ''assassinate'') ''duke'')"
proof -
  let ?s = "\<lparr>st_value = WaitForResponse,
      st_context = afterDeath\<lparr>currentAction := Some ''assassinate'', target := Some 0\<rparr>\<rparr>"
  have r: "run (\<lambda>s. 0) (initialState afterDeath) [evAction 2 ''assassinate'' (Some 0)] = Inr ?s"
    by (simp add: afterDeath_def eval_defs)
  have a: "GameMachine_on (st_value ?s) (ev_type (evBlock 0 ''duke'')) =
      Some (AssertCanBlock, Block, [PayActionCost])"
    by (simp add: evBlock_def)
  have b: "evalGuard AssertCanBlock (st_context ?s) (evBlock 0 ''duke'') =
      Inl (ActionCannotBeBlockedBy (Some ''assassinate'') ''duke'')"
    by (simp add: afterDeath_def eval_defs)
  from b have n: "evalGuard AssertCanBlock (st_context ?s) (evBlock 0 ''duke'') \<noteq> Inr True" by simp
  from guard_rejection [OF a n, of "\<lambda>s. 0" "[]"] a b r show ?thesis
    by (auto simp: evBlock_def)
qed

section \<open>Replay\<close>

text \<open>The result of a shuffle, an action or a run depends on the random source only at
  the seeds that follow the one in the context.\<close>

lemma agree_here:
  assumes "agree ru1 ru2 sd"
  shows "ru2 sd = ru1 sd" and "Rand_nextSeed ru2 sd = Rand_nextSeed ru1 sd"
    and "Rand_random ru2 lo hi sd = Rand_random ru1 lo hi sd"
proof -
  from assms [rule_format, of 0] show 1: "ru2 sd = ru1 sd" by simp
  then show 2: "Rand_nextSeed ru2 sd = Rand_nextSeed ru1 sd" by (simp add: Rand_nextSeed_def)
  from 1 2 show "Rand_random ru2 lo hi sd = Rand_random ru1 lo hi sd"
    by (simp add: Rand_random_def Rand_random'_def)
qed

lemma agree_funpow:
  assumes "agree ru1 ru2 sd"
  shows "agree ru1 ru2 ((Rand_nextSeed ru1 ^^ n) sd)"
proof
  fix k
  from assms [rule_format, of "k + n"]
  show "ru2 ((Rand_nextSeed ru1 ^^ k) ((Rand_nextSeed ru1 ^^ n) sd)) =
        ru1 ((Rand_nextSeed ru1 ^^ k) ((Rand_nextSeed ru1 ^^ n) sd))"
    by (simp add: funpow_add)
qed

lemma agree_next:
  assumes "agree ru1 ru2 sd"
  shows "agree ru1 ru2 (Rand_nextSeed ru1 sd)"
  using agree_funpow [OF assms, of 1] by simp

lemma shuffle_agree:
  "agree ru1 ru2 sd \<Longrightarrow> shuffle ru2 xs sd = shuffle ru1 xs sd"
proof (induction ru1 xs sd rule: shuffle.induct)
  case (1 ru1 xs sd)
  show ?case
  proof (cases "length xs \<le> 1")
    case True
    then show ?thesis by (simp add: shuffle_short)
  next
    case False
    let ?i = "Rand_random' ru1 sd 0 (int (length xs) - 1)"
    have r: "Rand_random ru1 0 (int (length xs) - 1) sd = (?i, Rand_nextSeed ru1 sd)"
      by (simp add: Rand_random_def)
    have "shuffle ru2 (remove (nat ?i) xs) (Rand_nextSeed ru1 sd) =
          shuffle ru1 (remove (nat ?i) xs) (Rand_nextSeed ru1 sd)"
      by (rule "1.IH" [OF False r [symmetric]]) (rule agree_next [OF "1.prems"])
    with False r agree_here(3) [OF "1.prems", of 0 "int (length xs) - 1"] show ?thesis
      by (simp add: shuffle_long)
  qed
qed

lemma overPlayer_seed: "overPlayer idx f c = Inr c' \<Longrightarrow> seed c' = seed c"
  by (auto simp: overPlayer_def split: option.splits if_splits sum.splits)

lemma replaceInfluence_agree:
  assumes "agree ru1 ru2 (seed c)"
  shows "replaceInfluence ru2 c = replaceInfluence ru1 c"
proof -
  have "redealPlayerRole ru2 idx r c' = redealPlayerRole ru1 idx r c'" if "seed c' = seed c" for idx r c'
    using shuffle_agree [OF assms, of "r # deck c'"] that
    by (simp add: redealPlayerRole_def Game_shuffleDeck_def Game_pushDeck_def)
  then show ?thesis
    by (auto simp: replaceInfluence_def split: option.splits sum.splits dest: overPlayer_seed)
qed

lemma execAct_agree:
  "agree ru1 ru2 (seed c) \<Longrightarrow> execAct ru2 a c e = execAct ru1 a c e"
  by (cases a) (simp_all add: replaceInfluence_agree)

lemma execAct_seed:
  assumes "execAct ru a c e = Inr c'"
  shows "\<exists>n. seed c' = (Rand_nextSeed ru ^^ n) (seed c)"
proof (cases "a = ReplaceInfluence")
  case True
  with execAct_frame [OF assms] show ?thesis by auto
next
  case False
  with execAct_frame [OF assms] have "seed c' = (Rand_nextSeed ru ^^ 0) (seed c)" by simp
  then show ?thesis by blast
qed

lemma execActs_agree:
  "agree ru1 ru2 (seed c) \<Longrightarrow> execActs ru2 as c e = execActs ru1 as c e"
proof (induction as arbitrary: c)
  case Nil
  then show ?case by simp
next
  case (Cons a as)
  note x = execAct_agree [OF Cons.prems, of a e]
  show ?case
  proof (cases "execAct ru1 a c e")
    case (Inl r)
    with x show ?thesis by simp
  next
    case (Inr c1)
    from execAct_seed [OF Inr] obtain n where "seed c1 = (Rand_nextSeed ru1 ^^ n) (seed c)" by blast
    with agree_funpow [OF Cons.prems, of n] have "agree ru1 ru2 (seed c1)" by simp
    from Cons.IH [OF this] x Inr show ?thesis by simp
  qed
qed

lemma execActs_seed:
  assumes "execActs ru as c e = Inr c'"
  shows "\<exists>n. seed c' = (Rand_nextSeed ru ^^ n) (seed c)"
  using execActs_frame [OF assms] by blast

lemma settle_agree:
  "agree ru1 ru2 (seed c) \<Longrightarrow> settle ru2 st c = settle ru1 st c"
proof (induction ru1 st c rule: settle.induct)
  case (1 ru1 st c)
  show ?case
  proof (cases "firstEnabled (GameMachine_always st) c")
    case (Inl r)
    then show ?thesis by (simp add: settle_unfold [of _ st c])
  next
    case (Inr x)
    show ?thesis
    proof (cases x)
      case None
      with Inr show ?thesis by (simp add: settle_unfold [of _ st c])
    next
      case (Some ta)
      obtain t a where ta: "ta = (t, a)" by (cases ta)
      note x = execActs_agree [OF "1.prems", of "a @ GameMachine_entry t" nullEvent]
      show ?thesis
      proof (cases "execActs ru1 (a @ GameMachine_entry t) c nullEvent")
        case (Inl r)
        with x Inr Some ta show ?thesis by (simp add: settle_unfold [of _ st c] follow_def)
      next
        case c1: (Inr c1)
        from execActs_seed [OF c1] obtain n where "seed c1 = (Rand_nextSeed ru1 ^^ n) (seed c)" by blast
        with agree_funpow [OF "1.prems", of n] have g: "agree ru1 ru2 (seed c1)" by simp
        have "settle ru2 t c1 = settle ru1 t c1"
          by (rule "1.IH" [OF Inr Some ta [symmetric] c1 g])
        with x c1 Inr Some ta show ?thesis by (simp add: settle_unfold [of _ st c] follow_def)
      qed
    qed
  qed
qed

lemma follow_agree:
  assumes "agree ru1 ru2 (seed c)"
  shows "follow ru2 t a c e = follow ru1 t a c e"
proof (cases "execActs ru1 (a @ GameMachine_entry t) c e")
  case (Inl r)
  with execActs_agree [OF assms, of "a @ GameMachine_entry t" e] show ?thesis by (simp add: follow_def)
next
  case (Inr c1)
  from execActs_seed [OF Inr] obtain n where "seed c1 = (Rand_nextSeed ru1 ^^ n) (seed c)" by blast
  with agree_funpow [OF assms, of n] have "agree ru1 ru2 (seed c1)" by simp
  from settle_agree [OF this] execActs_agree [OF assms, of "a @ GameMachine_entry t" e] Inr
  show ?thesis by (simp add: follow_def)
qed

lemma macrostep_agree:
  assumes "agree ru1 ru2 (seed (st_context s))"
  shows "macrostep ru2 s e = macrostep ru1 s e"
  using settle_agree [OF assms] follow_agree [OF assms]
  by (simp add: macrostep_def split: option.splits sum.splits)

text \<open>The seed along a run: advanced once per card of the deck at each redeal.\<close>

lemma seed_compose:
  "s1 = (f ^^ (L * k1)) s0 \<Longrightarrow> s2 = (f ^^ (L * k2)) s1 \<Longrightarrow> s2 = (f ^^ (L * (k1 + k2))) s0"
  by (simp add: funpow_funpow distrib_left add.commute)

lemma follow_frame:
  assumes "follow ru t a c e = Inr (st', c', acts)"
  shows "length (players c') = length (players c) \<and> gdef c' = gdef c \<and>
    length (deck c') = length (deck c) \<and>
    seed c' = (Rand_nextSeed ru ^^ (length (deck c) * count_list acts ReplaceInfluence)) (seed c)"
proof -
  from follow_Inr [OF assms] obtain c1 acts1 where
    x: "execActs ru (a @ GameMachine_entry t) c e = Inr c1" and
    s: "settle ru t c1 = Inr (st', c', acts1)" and a: "acts = (a @ GameMachine_entry t) @ acts1"
    by auto
  note f = execActs_frame [OF x] and g = settle_frame [OF s]
  from f g have "seed c' = (Rand_nextSeed ru ^^ (length (deck c) * count_list acts1 ReplaceInfluence)) (seed c1)"
    by simp
  from seed_compose [OF _ this, of "count_list (a @ GameMachine_entry t) ReplaceInfluence" "seed c"] f a
  have "seed c' = (Rand_nextSeed ru ^^ (length (deck c) * count_list acts ReplaceInfluence)) (seed c)"
    by (simp add: add.assoc)
  with f g show ?thesis by simp
qed

lemma macrostep_frame:
  assumes "macrostep ru s e = Inr (st', c', acts)"
  shows "length (players c') = length (players (st_context s)) \<and> gdef c' = gdef (st_context s) \<and>
    length (deck c') = length (deck (st_context s)) \<and>
    seed c' = (Rand_nextSeed ru ^^ (length (deck (st_context s)) * count_list acts ReplaceInfluence))
      (seed (st_context s))"
  using macrostep_Inr [OF assms] by (auto dest: settle_frame follow_frame)

lemma runLog_frame:
  "runLog ru s evs = Inr (s', acts) \<Longrightarrow>
   length (players (st_context s')) = length (players (st_context s)) \<and>
   gdef (st_context s') = gdef (st_context s) \<and>
   length (deck (st_context s')) = length (deck (st_context s)) \<and>
   seed (st_context s') =
     (Rand_nextSeed ru ^^ (length (deck (st_context s)) * count_list acts ReplaceInfluence))
       (seed (st_context s))"
proof (induction evs arbitrary: s acts)
  case Nil
  then show ?case by auto
next
  case (Cons e evs)
  from Cons.prems(1) obtain st1 c1 acts1 acts2 where
    m: "macrostep ru s e = Inr (st1, c1, acts1)" and
    r: "runLog ru \<lparr>st_value = st1, st_context = c1\<rparr> evs = Inr (s', acts2)" and
    a: "acts = acts1 @ acts2"
    by (auto split: sum.splits prod.splits)
  note f = macrostep_frame [OF m] and g = Cons.IH [OF r]
  from f g have "seed (st_context s') =
      (Rand_nextSeed ru ^^ (length (deck (st_context s)) * count_list acts2 ReplaceInfluence)) (seed c1)"
    by simp
  from seed_compose [OF _ this, of "count_list acts1 ReplaceInfluence" "seed (st_context s)"] f a
  have "seed (st_context s') =
      (Rand_nextSeed ru ^^ (length (deck (st_context s)) * count_list acts ReplaceInfluence))
        (seed (st_context s))"
    by simp
  with f g show ?case by simp
qed

lemma runLog_agree:
  "agree ru1 ru2 (seed (st_context s)) \<Longrightarrow> runLog ru2 s evs = runLog ru1 s evs"
proof (induction evs arbitrary: s)
  case Nil
  then show ?case by simp
next
  case (Cons e evs)
  note x = macrostep_agree [OF Cons.prems, of e]
  show ?case
  proof (cases "macrostep ru1 s e")
    case (Inl r)
    with x show ?thesis by simp
  next
    case (Inr y)
    obtain st1 c1 acts1 where y: "y = (st1, c1, acts1)" by (cases y)
    from macrostep_frame [OF Inr [unfolded y]] obtain n where
      "seed c1 = (Rand_nextSeed ru1 ^^ n) (seed (st_context s))" by blast
    with agree_funpow [OF Cons.prems, of n]
    have "agree ru1 ru2 (seed (st_context \<lparr>st_value = st1, st_context = c1\<rparr>))" by simp
    from Cons.IH [OF this] x Inr y show ?thesis by simp
  qed
qed

lemma run_of_runLog:
  "run ru s evs = (case runLog ru s evs of Inl x \<Rightarrow> Inl x | Inr (s', acts) \<Rightarrow> Inr s')"
proof (induction evs arbitrary: s)
  case Nil
  then show ?case by simp
next
  case (Cons e evs)
  show ?case
    by (simp add: transition_def Cons.IH split: sum.splits prod.splits)
qed

text \<open>A source that always returns the largest number makes the shuffle reverse the list.\<close>

lemma draw_last: "0 \<le> hi \<Longrightarrow> Rand_random' (\<lambda>s. 4294967295) sd 0 hi = hi"
  by (simp add: Rand_random'_def Math_round_def UINT32_MAX_def floor_eq_iff)

lemma shuffle_last_first: "fst (shuffle (\<lambda>s. 4294967295) xs sd) = rev xs"
proof (induction xs arbitrary: sd rule: rev_induct)
  case Nil
  then show ?case by (simp add: shuffle_short)
next
  case (snoc x xs)
  show ?case
  proof (cases "xs = []")
    case True
    then show ?thesis by (simp add: shuffle_short)
  next
    case False
    then have l: "\<not> length (xs @ [x]) \<le> 1" by (cases xs) simp_all
    have d: "Rand_random' (\<lambda>s. 4294967295) sd 0 (int (length (xs @ [x])) - 1) = int (length xs)"
      using draw_last [of "int (length xs)" sd] by simp
    have r: "remove (length xs) (xs @ [x]) = xs" by (simp add: remove_def)
    from snoc.IH [of "Rand_nextSeed (\<lambda>s. 4294967295) sd"] show ?thesis
      unfolding shuffle_long [OF l] Rand_random_def d
      by (auto simp: r split: prod.splits)
  qed
qed

lemma shuffle_reverse:
  "shuffle (\<lambda>s. 4294967295) xs sd = (rev xs, (Rand_nextSeed (\<lambda>s. 4294967295) ^^ (length xs - 1)) sd)"
  using shuffle_last_first [of xs sd] shuffle_seed [of "\<lambda>s. 4294967295" xs sd]
  by (simp add: prod_eq_iff)

lemma nextSeed_funpow_nonempty: "sd \<noteq> [] \<Longrightarrow> (Rand_nextSeed ru ^^ k) sd \<noteq> []"
  by (cases k) (simp_all add: Rand_nextSeed_def)

text \<open>
  C8. The machine is a function of the state and the event, and its only random source is
  \<^verbatim>\<open>randUint\<close> applied to the seed in the context, which every shuffle threads through.
  Two runs of one event sequence from initial states made of the same seed, players,
  deck, rulebook and turn give the same result, deck order and actions executed included,
  whatever the other fields of the two contexts held, and whatever the two random sources
  return at seeds that \<^verbatim>\<open>_nextSeed\<close> does not reach from the initial seed. The seed of
  the state reached is the initial seed advanced by \<^verbatim>\<open>_nextSeed\<close> once per card of the
  deck for every \<open>ReplaceInfluence\<close> executed; the deck keeps its length and the rulebook
  stays.
\<close>

theorem replay_deterministic:
  assumes "seed c1 = seed c2" and "players c1 = players c2" and "deck c1 = deck c2"
    and "gdef c1 = gdef c2" and "whoseTurn c1 = whoseTurn c2"
    and "\<forall>k. ru2 ((Rand_nextSeed ru1 ^^ k) (seed c1)) = ru1 ((Rand_nextSeed ru1 ^^ k) (seed c1))"
  shows "initialState c2 = initialState c1 \<and>
    run ru2 (initialState c2) evs = run ru1 (initialState c1) evs \<and>
    runLog ru2 (initialState c2) evs = runLog ru1 (initialState c1) evs \<and>
    (\<forall>s acts. runLog ru1 (initialState c1) evs = Inr (s, acts) \<longrightarrow>
       seed (st_context s) =
         (Rand_nextSeed ru1 ^^ (length (deck c1) * count_list acts ReplaceInfluence)) (seed c1) \<and>
       length (deck (st_context s)) = length (deck c1) \<and>
       gdef (st_context s) = gdef c1)"
proof -
  from assms(1-5) have "resetContext c1 = resetContext c2"
    by (cases c1, cases c2) (simp add: resetContext_def)
  then have i: "initialState c2 = initialState c1" by (simp add: initialState_def)
  from assms(6) have "agree ru1 ru2 (seed (st_context (initialState c1)))"
    by (simp add: initialState_def resetContext_def)
  from runLog_agree [OF this] have l: "runLog ru2 (initialState c1) evs = runLog ru1 (initialState c1) evs" .
  then have r: "run ru2 (initialState c1) evs = run ru1 (initialState c1) evs"
    by (simp add: run_of_runLog)
  have f: "seed (st_context s) =
         (Rand_nextSeed ru1 ^^ (length (deck c1) * count_list acts ReplaceInfluence)) (seed c1) \<and>
       length (deck (st_context s)) = length (deck c1) \<and> gdef (st_context s) = gdef c1"
    if "runLog ru1 (initialState c1) evs = Inr (s, acts)" for s acts
    using runLog_frame [OF that] by (simp add: initialState_def resetContext_def)
  from i l r f show ?thesis by simp
qed

theorem replay_deterministic_witness:
  "seed exampleGame = seed (exampleGame\<lparr>blocker := Some 1, currentAction := Some ''coup''\<rparr>) \<and>
   players exampleGame = players (exampleGame\<lparr>blocker := Some 1, currentAction := Some ''coup''\<rparr>) \<and>
   deck exampleGame = deck (exampleGame\<lparr>blocker := Some 1, currentAction := Some ''coup''\<rparr>) \<and>
   gdef exampleGame = gdef (exampleGame\<lparr>blocker := Some 1, currentAction := Some ''coup''\<rparr>) \<and>
   whoseTurn exampleGame =
     whoseTurn (exampleGame\<lparr>blocker := Some 1, currentAction := Some ''coup''\<rparr>) \<and>
   (\<forall>k. (\<lambda>s. if s = [] then 0 else 4294967295 :: 32 word)
          ((Rand_nextSeed (\<lambda>s. 4294967295) ^^ k) (seed exampleGame)) =
        (\<lambda>s. 4294967295) ((Rand_nextSeed (\<lambda>s. 4294967295) ^^ k) (seed exampleGame))) \<and>
   run (\<lambda>s. 4294967295) (initialState exampleGame)
     [evAction 0 ''tax'' None, evChallenge 1, evReveal 0 ''duke''] = Inr redealt \<and>
   run (\<lambda>s. if s = [] then 0 else 4294967295)
     (initialState (exampleGame\<lparr>blocker := Some 1, currentAction := Some ''coup''\<rparr>))
     [evAction 0 ''tax'' None, evChallenge 1, evReveal 0 ''duke''] = Inr redealt \<and>
   deck (st_context redealt) =
     [''contessa'', ''ambassador'', ''ambassador'', ''captain'', ''captain'',
      ''assassin'', ''assassin'', ''duke'', ''duke''] \<and>
   seed (st_context redealt) =
     (Rand_nextSeed (\<lambda>s. 4294967295) ^^
        (length (deck exampleGame) *
         count_list [SetCurrentAction, SetChallenger, SetRevealerClaimant, RevealInfluence,
                     ReplaceInfluence, SetRevealerChallenger] ReplaceInfluence))
       (seed exampleGame)"
proof -
  let ?c2 = "exampleGame\<lparr>blocker := Some 1, currentAction := Some ''coup''\<rparr>"
  let ?evs = "[evAction 0 ''tax'' None, evChallenge 1, evReveal 0 ''duke'']"
  let ?ru1 = "\<lambda>s :: seed. 4294967295 :: 32 word"
  let ?ru2 = "\<lambda>s :: seed. if s = [] then 0 else 4294967295 :: 32 word"
  have e: "seed exampleGame = seed ?c2" "players exampleGame = players ?c2"
    "deck exampleGame = deck ?c2" "gdef exampleGame = gdef ?c2" "whoseTurn exampleGame = whoseTurn ?c2"
    by simp_all
  have a: "\<forall>k. ?ru2 ((Rand_nextSeed ?ru1 ^^ k) (seed exampleGame)) =
      ?ru1 ((Rand_nextSeed ?ru1 ^^ k) (seed exampleGame))"
    using nextSeed_funpow_nonempty [where sd = "seed exampleGame" and ru = ?ru1]
    by (simp add: exampleGame_def)
  have l: "runLog ?ru1 (initialState exampleGame) ?evs =
      Inr (redealt, [SetCurrentAction, SetChallenger, SetRevealerClaimant, RevealInfluence,
                     ReplaceInfluence, SetRevealerChallenger])"
    by (simp add: redealt_def eval_defs shuffle_reverse Rand_nextSeed_def)
  have r: "run ?ru1 (initialState exampleGame) ?evs = Inr redealt"
    by (simp add: redealt_def eval_defs shuffle_reverse Rand_nextSeed_def)
  have d: "deck (st_context redealt) =
     [''contessa'', ''ambassador'', ''ambassador'', ''captain'', ''captain'',
      ''assassin'', ''assassin'', ''duke'', ''duke'']"
    by (simp add: redealt_def)
  note th = replay_deterministic [of exampleGame ?c2 ?ru2 ?ru1 ?evs, OF e a]
  from th have "run ?ru2 (initialState ?c2) ?evs = run ?ru1 (initialState exampleGame) ?evs"
    by (rule conjunct1 [OF conjunct2])
  with r have r2: "run ?ru2 (initialState ?c2) ?evs = Inr redealt" by (simp only:)
  from th have "\<forall>s acts. runLog ?ru1 (initialState exampleGame) ?evs = Inr (s, acts) \<longrightarrow>
       seed (st_context s) =
         (Rand_nextSeed ?ru1 ^^ (length (deck exampleGame) * count_list acts ReplaceInfluence))
           (seed exampleGame) \<and>
       length (deck (st_context s)) = length (deck exampleGame) \<and>
       gdef (st_context s) = gdef exampleGame"
    by (rule conjunct2 [OF conjunct2 [OF conjunct2]])
  from this [rule_format, OF l] have sd: "seed (st_context redealt) =
     (Rand_nextSeed ?ru1 ^^
        (length (deck exampleGame) *
         count_list [SetCurrentAction, SetChallenger, SetRevealerClaimant, RevealInfluence,
                     ReplaceInfluence, SetRevealerChallenger] ReplaceInfluence))
       (seed exampleGame)"
    by (rule conjunct1)
  from e a r r2 d sd show ?thesis by (intro conjI)
qed

section \<open>Turn order and dead players\<close>

lemma run_append:
  "run ru s (xs @ ys) = (case run ru s xs of Inl x \<Rightarrow> Inl x | Inr s' \<Rightarrow> run ru s' ys)"
  by (induction xs arbitrary: s) (auto split: sum.splits)

lemma run_killPlayer1:
  "run ru (initialState exampleGame) killPlayer1 = Inr \<lparr>st_value = StartOfTurn, st_context = afterDeath\<rparr>"
  by (simp add: killPlayer1_def afterDeath_def eval_defs)

text \<open>
  C3 does not hold of the code. \<^verbatim>\<open>advanceTurn\<close> adds one modulo the number of players
  (its comment reads \<^verbatim>\<open>todo: living players\<close>): after two more turns of income the game
  is not over, the machine is in \<open>StartOfTurn\<close>, and \<open>whoseTurn\<close> is 1, the dead player.
\<close>

theorem dead_player_gets_turn:
  "run ru (initialState exampleGame)
     (killPlayer1 @ [evAction 2 ''income'' None, evAction 0 ''income'' None]) =
   Inr \<lparr>st_value = StartOfTurn,
        st_context = afterDeath\<lparr>whoseTurn := 1,
          players := (players afterDeath)[0 := (players afterDeath ! 0)\<lparr>cash := 5\<rparr>,
                                           2 := (players afterDeath ! 2)\<lparr>cash := 4\<rparr>]\<rparr>\<rparr> \<and>
   Player_isDead (players afterDeath ! 1) \<and> \<not> Game_isOver afterDeath"
  by (simp add: run_append run_killPlayer1) (simp add: afterDeath_def eval_defs)


section \<open>Senders are not checked to be alive\<close>

lemma guards_ignore_influence:
  assumes "length ps = length (players c)"
  shows "assertValidPlayer (c\<lparr>players := ps\<rparr>) e = assertValidPlayer c e"
    and "assertValidOpponent (c\<lparr>players := ps\<rparr>) e = assertValidOpponent c e"
    and "assertCanBlock (c\<lparr>players := ps\<rparr>) e = assertCanBlock c e"
    and "assertCanChallenge (c\<lparr>players := ps\<rparr>) e = assertCanChallenge c e"
  using assms
  by (auto simp: assertValidPlayer_def assertValidOpponent_def assertCanBlock_def
      assertCanChallenge_def isValidPlayerIdx_def ifActionWasBlocked_def
      split: sum.splits option.splits)


text \<open>
  C10. The guards of \<open>BLOCK\<close>, \<open>CHALLENGE\<close> and \<open>ALLOW\<close> read the players only through
  the length of the array: they give the same verdict whatever the players hold. After
  player 1 has died in the game above, the machine accepts from player 1 a block of
  player 2's foreign aid, a challenge of player 2's tax, and the allow that lets player
  2's tax go through.
\<close>

theorem dead_sender_accepted:
  "(length ps = length (players c) \<longrightarrow>
      assertValidOpponent (c\<lparr>players := ps\<rparr>) e = assertValidOpponent c e \<and>
      assertCanBlock (c\<lparr>players := ps\<rparr>) e = assertCanBlock c e \<and>
      assertCanChallenge (c\<lparr>players := ps\<rparr>) e = assertCanChallenge c e) \<and>
   run ru (initialState exampleGame) killPlayer1 =
     Inr \<lparr>st_value = StartOfTurn, st_context = afterDeath\<rparr> \<and>
   Player_isDead (players afterDeath ! 1) \<and>
   run ru \<lparr>st_value = StartOfTurn, st_context = afterDeath\<rparr>
       [evAction 2 ''foreign-aid'' None, evBlock 1 ''duke''] =
     Inr \<lparr>st_value = Block,
          st_context = afterDeath\<lparr>currentAction := Some ''foreign-aid'', blocker := Some 1\<rparr>\<rparr> \<and>
   run ru \<lparr>st_value = StartOfTurn, st_context = afterDeath\<rparr>
       [evAction 2 ''tax'' None, evChallenge 1] =
     Inr \<lparr>st_value = Challenge,
          st_context = afterDeath\<lparr>currentAction := Some ''tax'', challenger := Some 1,
            revealer := Some 2\<rparr>\<rparr> \<and>
   run ru \<lparr>st_value = StartOfTurn, st_context = afterDeath\<rparr>
       [evAction 2 ''tax'' None, evAllow 1] =
     Inr \<lparr>st_value = StartOfTurn,
          st_context = afterDeath\<lparr>whoseTurn := 0,
            players := (players afterDeath)[2 := (players afterDeath ! 2)\<lparr>cash := 6\<rparr>]\<rparr>\<rparr>"
proof -
  have "run ru \<lparr>st_value = StartOfTurn, st_context = afterDeath\<rparr>
       [evAction 2 ''foreign-aid'' None, evBlock 1 ''duke''] =
     Inr \<lparr>st_value = Block,
          st_context = afterDeath\<lparr>currentAction := Some ''foreign-aid'', blocker := Some 1\<rparr>\<rparr>"
    by (simp add: afterDeath_def eval_defs)
  moreover have "run ru \<lparr>st_value = StartOfTurn, st_context = afterDeath\<rparr>
       [evAction 2 ''tax'' None, evChallenge 1] =
     Inr \<lparr>st_value = Challenge,
          st_context = afterDeath\<lparr>currentAction := Some ''tax'', challenger := Some 1,
            revealer := Some 2\<rparr>\<rparr>"
    by (simp add: afterDeath_def eval_defs)
  moreover have "run ru \<lparr>st_value = StartOfTurn, st_context = afterDeath\<rparr>
       [evAction 2 ''tax'' None, evAllow 1] =
     Inr \<lparr>st_value = StartOfTurn,
          st_context = afterDeath\<lparr>whoseTurn := 0,
            players := (players afterDeath)[2 := (players afterDeath ! 2)\<lparr>cash := 6\<rparr>]\<rparr>\<rparr>"
    by (simp add: afterDeath_def eval_defs)
  moreover have "Player_isDead (players afterDeath ! 1)"
    by (simp add: afterDeath_def eval_defs)
  ultimately show ?thesis
    using run_killPlayer1 [of ru] guards_ignore_influence [of ps c e] by simp
qed


theorem dead_sender_accepted_witness:
  "length (map Player_kill (players afterDeath)) = length (players afterDeath) \<and>
   assertCanBlock (afterDeath\<lparr>players := map Player_kill (players afterDeath)\<rparr>)
       (evBlock 1 ''duke'') =
     assertCanBlock afterDeath (evBlock 1 ''duke'') \<and>
   run (\<lambda>s. 0) \<lparr>st_value = StartOfTurn, st_context = afterDeath\<rparr>
       [evAction 2 ''foreign-aid'' None, evBlock 1 ''duke''] =
     Inr \<lparr>st_value = Block,
          st_context = afterDeath\<lparr>currentAction := Some ''foreign-aid'', blocker := Some 1\<rparr>\<rparr>"
  using dead_sender_accepted [of "map Player_kill (players afterDeath)" afterDeath
      "evBlock 1 ''duke''" "\<lambda>s. 0"]
  by simp

section \<open>Actions that \<^verbatim>\<open>Game.applyAction\<close> does not handle\<close>

text \<open>
  C9, as stated, fails in its last part. \<^verbatim>\<open>Game.applyAction\<close> does return \<^verbatim>\<open>undefined\<close>
  for a coup, and the call is reached by a legal \<open>ACTION\<close> event; but the \<^verbatim>\<open>assign\<close>
  then merges nothing, the context is the one before the call, and the macrostep ends
  with a context: the turn has passed and nothing else has changed.
\<close>

theorem coup_counterexample:
  "Game_applyAction (richGame\<lparr>currentAction := Some ''coup'', target := Some 1\<rparr>) = None \<and>
   applyAction (richGame\<lparr>currentAction := Some ''coup'', target := Some 1\<rparr>) =
     richGame\<lparr>currentAction := Some ''coup'', target := Some 1\<rparr> \<and>
   macrostep (\<lambda>s. 0) (initialState richGame) (evAction 0 ''coup'' (Some 1)) =
     Inr (StartOfTurn, richGame\<lparr>whoseTurn := 1\<rparr>,
          [SetCurrentAction, ClearRevealer, ApplyAction, AdvanceTurn, ResetContext])"
  by (simp add: richGame_def eval_defs)

lemma settle_EndOfTurn_players:
  "\<exists>st' c'. settle ru EndOfTurn c = Inr (st', c', if Game_isOver c then [] else [AdvanceTurn, ResetContext]) \<and>
     players c' = players c \<and> deck c' = deck c \<and>
     st' = (if Game_isOver c then GameOver else StartOfTurn)"
  by (simp add: settle_at follow_def advanceTurn_def resetContext_def)

text \<open>
  C9, amended. For coup, steal, exchange and interrogate \<^verbatim>\<open>Game.applyAction\<close> returns
  \<^verbatim>\<open>undefined\<close> and the action \<^verbatim>\<open>applyAction\<close> leaves the context as it is. The call is
  reachable: at the start of a turn, a coup by the active player holding at least 7 coins
  on another valid player passes the guard, goes through \<open>WaitForResponse\<close> to
  \<open>FinishAction\<close>, where \<^verbatim>\<open>applyAction\<close> runs, and the turn ends with the players and the
  deck as they were.
\<close>

theorem applyAction_partial:
  assumes "a = ''coup'' \<or> a = ''steal'' \<or> a = ''exchange'' \<or> a = ''interrogate''"
    and "currentAction c = Some a"
    and "st_value s = StartOfTurn"
    and "viewPlayer (Some (int (whoseTurn (st_context s)))) (st_context s) = Some p"
    and "7 \<le> cash p"
    and "isValidPlayerIdx (st_context s) (Some t)"
    and "t \<noteq> int (whoseTurn (st_context s))"
  shows "Game_applyAction c = None \<and> applyAction c = c \<and>
    (\<exists>st' c' acts.
       macrostep ru s (evAction (int (whoseTurn (st_context s))) ''coup'' (Some t)) =
         Inr (st', c', [SetCurrentAction, ClearRevealer, ApplyAction] @ acts) \<and>
       players c' = players (st_context s) \<and> deck c' = deck (st_context s) \<and>
       st' = (if Game_isOver (st_context s) then GameOver else StartOfTurn))"
proof -
  let ?c0 = "st_context s"
  let ?e = "evAction (int (whoseTurn ?c0)) ''coup'' (Some t)"
  let ?c1 = "?c0\<lparr>currentAction := Some ''coup'', target := Some t, revealer := None, revealedRole := None\<rparr>"
  have n: "Game_applyAction c = None \<and> applyAction c = c"
    using assms(1,2) by (auto simp: Game_applyAction_def applyAction_def)
  have g: "assertCanStartAction ?c0 ?e = Inr True"
    using assms(4-7)
    by (auto simp: assertCanStartAction_def assertValidPlayer_def isValidPlayerIdx_def evAction_def
        isValidAction_def GameDef_actions_def isTargeted_def lookupAction_def no_metadata_def
        Game_playerCanAffordAction_def getCost_def viewPlayer_def split: if_splits)
  have w: "settle ru WaitForResponse (setCurrentAction ?c0 ?e) = follow ru FinishAction [] (setCurrentAction ?c0 ?e) nullEvent"
    by (simp add: settle_unfold [of ru WaitForResponse] setCurrentAction_def evAction_def
        ifActionHasNoResponse_def ifActionHasResponse_def isRoleRequired_def isBlockable_def
        getRequiredRoles_def getBlockingRoles_def lookupAction_def GameDef_actions_def no_metadata_def)
  have f: "settle ru FinishAction ?c1 = follow ru EndOfTurn [] ?c1 nullEvent"
    by (simp add: settle_unfold [of ru FinishAction] ifPendingReveal_def)
  from settle_EndOfTurn_players [of ru ?c1] obtain st' c' where
    e: "settle ru EndOfTurn ?c1 = Inr (st', c', if Game_isOver ?c1 then [] else [AdvanceTurn, ResetContext])"
      "players c' = players ?c1" "deck c' = deck ?c1" "st' = (if Game_isOver ?c1 then GameOver else StartOfTurn)"
    by blast
  have o: "Game_isOver ?c1 = Game_isOver ?c0" by (simp add: Game_isOver_def)
  have "macrostep ru s ?e = Inr (st', c', [SetCurrentAction, ClearRevealer, ApplyAction] @
      (if Game_isOver ?c1 then [] else [AdvanceTurn, ResetContext]))"
    using assms(3) g w f e
    apply (simp add: macrostep_def)
    apply (simp add: evAction_def)
    apply (simp add: follow_def setCurrentAction_def clearRevealer_def applyAction_def Game_applyAction_def evAction_def)
    done
  with e o n show ?thesis by auto
qed


theorem applyAction_partial_witness:
  "currentAction (richGame\<lparr>currentAction := Some ''coup''\<rparr>) = Some ''coup'' \<and>
   st_value (initialState richGame) = StartOfTurn \<and>
   viewPlayer (Some (int (whoseTurn (st_context (initialState richGame)))))
       (st_context (initialState richGame)) =
     Some \<lparr>cash = 7, influence = [\<lparr>role = ''duke'', revealed = False\<rparr>,
                                  \<lparr>role = ''captain'', revealed = False\<rparr>]\<rparr> \<and>
   isValidPlayerIdx (st_context (initialState richGame)) (Some 1) \<and>
   Game_applyAction (richGame\<lparr>currentAction := Some ''coup''\<rparr>) = None \<and>
   applyAction (richGame\<lparr>currentAction := Some ''coup''\<rparr>) =
     richGame\<lparr>currentAction := Some ''coup''\<rparr>"
proof -
  let ?p = "\<lparr>cash = 7, influence = [\<lparr>role = ''duke'', revealed = False\<rparr>,
                                    \<lparr>role = ''captain'', revealed = False\<rparr>]\<rparr>"
  have 1: "currentAction (richGame\<lparr>currentAction := Some ''coup''\<rparr>) = Some ''coup''" by simp
  have 2: "st_value (initialState richGame) = StartOfTurn" by (simp add: initialState_def)
  have 3: "viewPlayer (Some (int (whoseTurn (st_context (initialState richGame)))))
       (st_context (initialState richGame)) = Some ?p"
    by (simp add: richGame_def eval_defs)
  have 4: "(7::int) \<le> cash ?p" by simp
  have 5: "isValidPlayerIdx (st_context (initialState richGame)) (Some 1)"
    by (simp add: richGame_def eval_defs)
  have 6: "(1::int) \<noteq> int (whoseTurn (st_context (initialState richGame)))"
    by (simp add: richGame_def eval_defs)
  from applyAction_partial [OF disjI1 [OF refl] 1 2 3 4 5 6, of "\<lambda>s. 0"] 1 2 3 5
  show ?thesis by simp
qed

section \<open>Paying for an action\<close>

lemma paidOnce_append:
  "paidOnce d (xs @ ys) = (paidOnce d xs \<and> paidOnce (dueAfter d xs) ys)"
  by (induction d xs rule: paidOnce.induct) auto

lemma dueAfter_append: "dueAfter d (xs @ ys) = dueAfter (dueAfter d xs) ys"
  by (induction d xs rule: dueAfter.induct) auto

lemma overPlayer_blocker: "overPlayer idx f c = Inr c' \<Longrightarrow> blocker c' = blocker c"
  by (auto simp: overPlayer_def split: option.splits if_splits sum.splits)

lemma revealInfluence_blocker: "revealInfluence c e = Inr c' \<Longrightarrow> blocker c' = blocker c"
  by (auto simp: revealInfluence_def split: option.splits sum.splits dest!: overPlayer_blocker)

lemma replaceInfluence_blocker: "replaceInfluence ru c = Inr c' \<Longrightarrow> blocker c' = blocker c"
  by (auto simp: replaceInfluence_def redealPlayerRole_def Game_popDeck_def Game_shuffleDeck_def
      Game_pushDeck_def split: option.splits sum.splits prod.splits list.splits
      dest!: overPlayer_blocker)

lemma execAct_blocker:
  "execAct ru a c e = Inr c' \<Longrightarrow> a \<noteq> SetBlocker \<Longrightarrow> a \<noteq> ResetContext \<Longrightarrow> blocker c' = blocker c"
  by (cases a)
    (auto simp: setCurrentAction_def payActionCost_def overActivePlayer_def setChallenger_def
      setRevealer_def clearRevealer_def applyAction_def Game_applyAction_def
      Game_applyRevealAction_def advanceTurn_def
      split: sum.splits option.splits if_splits
      dest: revealInfluence_blocker replaceInfluence_blocker)

lemma execActs_blocker:
  "execActs ru as c e = Inr c' \<Longrightarrow> SetBlocker \<notin> set as \<Longrightarrow> ResetContext \<notin> set as \<Longrightarrow>
   blocker c' = blocker c"
proof (induction as arbitrary: c)
  case Nil
  then show ?case by simp
next
  case (Cons a as)
  from Cons.prems obtain c1 where 1: "execAct ru a c e = Inr c1" and 2: "execActs ru as c1 e = Inr c'"
    by (auto split: sum.splits)
  from execAct_blocker [OF 1] Cons.IH [OF 2] Cons.prems show ?case by auto
qed

lemma always_edge_pay:
  assumes f: "firstEnabled (GameMachine_always st) c = Inr (Some (t, a))"
    and x: "execActs ru (a @ GameMachine_entry t) c nullEvent = Inr c1"
    and d: "mayPay st c \<longrightarrow> d"
  shows "paidOnce d (a @ GameMachine_entry t) \<and> (mayPay t c1 \<longrightarrow> dueAfter d (a @ GameMachine_entry t))"
proof (cases st)
  case ExecCounterReveal
  with f have "(t = EndOfTurn \<and> a = []) \<or> (t = FinishAction \<and> a = []) \<or>
      (t = WaitForBlock \<and> a = [] \<and> \<not> ifActionWasBlocked c)"
    by (auto split: sum.splits if_splits)
  with d ExecCounterReveal show ?thesis by (auto simp: mayPay_def ifActionWasBlocked_def)
next
  case Challenge
  with f have ta: "t = ExecRevealOnChallenge" "a = []" by (auto split: sum.splits if_splits)
  with execActs_blocker [OF x] have "blocker c1 = blocker c" by auto
  with d Challenge ta show ?thesis by (auto simp: mayPay_def)
next
  case ChallengeIncorrect
  with f have ta: "t = ExecCounterReveal" "a = []" by (auto split: sum.splits if_splits)
  with execActs_blocker [OF x] have "blocker c1 = blocker c" by auto
  with d ChallengeIncorrect ta show ?thesis by (auto simp: mayPay_def)
next
  case ExecRevealOnChallenge
  with f have ta: "(t = ChallengeIncorrect \<or> t = FinishAction \<or> t = EndOfTurn) \<and> a = []"
    by (auto split: sum.splits if_splits)
  with execActs_blocker [OF x] have "blocker c1 = blocker c" by auto
  with d ExecRevealOnChallenge ta show ?thesis by (auto simp: mayPay_def)
qed (use f in \<open>auto simp: mayPay_def split: sum.splits if_splits\<close>)


lemma assertValidPlayer_Some: "assertValidPlayer c e = Inr b \<Longrightarrow> ev_player e \<noteq> None"
  by (auto simp: assertValidPlayer_def isValidPlayerIdx_def split: if_splits option.splits)

lemma assertCanBlock_Some: "assertCanBlock c e = Inr b \<Longrightarrow> ev_player e \<noteq> None"
  by (auto simp: assertCanBlock_def assertValidOpponent_def split: sum.splits
      dest: assertValidPlayer_Some)

lemma on_edge_pay:
  assumes o: "GameMachine_on st (ev_type e) = Some (g, t, a)"
    and g: "evalGuard g c e = Inr True"
    and x: "execActs ru (a @ GameMachine_entry t) c e = Inr c1"
    and d: "mayPay st c \<longrightarrow> d"
  shows "paidOnce d (a @ GameMachine_entry t) \<and> (mayPay t c1 \<longrightarrow> dueAfter d (a @ GameMachine_entry t))"
proof (cases st)
  case StartOfTurn
  with o show ?thesis by (cases "ev_type e") (auto simp: mayPay_def)
next
  case WaitForResponse
  show ?thesis
  proof (cases "ev_type e")
    case BLOCK
    with o WaitForResponse have ta: "g = AssertCanBlock" "t = Block" "a = [PayActionCost]" by auto
    with g have "ev_player e \<noteq> None" by (auto dest: assertCanBlock_Some)
    with x ta have "blocker c1 \<noteq> None" by (auto simp: setBlocker_def split: sum.splits)
    with d WaitForResponse ta show ?thesis by (auto simp: mayPay_def)
  next
    case CHALLENGE
    with o WaitForResponse have ta: "t = Challenge" "a = []" by auto
    with d WaitForResponse show ?thesis by (auto simp: mayPay_def)
  next
    case ALLOW
    with o WaitForResponse have ta: "t = FinishAction" "a = [PayActionCost]" by auto
    with d WaitForResponse show ?thesis by (auto simp: mayPay_def)
  qed (use o WaitForResponse in auto)
next
  case Block
  show ?thesis
  proof (cases "ev_type e")
    case CHALLENGE
    with o Block have ta: "t = Challenge" "a = []" by auto
    with execActs_blocker [OF x] have "blocker c1 = blocker c" by auto
    with d Block ta show ?thesis by (auto simp: mayPay_def)
  next
    case ALLOW
    with o Block have ta: "t = EndOfTurn" "a = []" by auto
    with d Block show ?thesis by (auto simp: mayPay_def)
  qed (use o Block in auto)
next
  case Challenge
  show ?thesis
  proof (cases "ev_type e")
    case REVEAL
    with o Challenge have ta: "t = ExecRevealOnChallenge" "a = []" by auto
    with execActs_blocker [OF x] have "blocker c1 = blocker c" by auto
    with d Challenge ta show ?thesis by (auto simp: mayPay_def)
  qed (use o Challenge in auto)
next
  case ChallengeIncorrect
  show ?thesis
  proof (cases "ev_type e")
    case REVEAL
    with o ChallengeIncorrect have ta: "t = ExecCounterReveal" "a = []" by auto
    with execActs_blocker [OF x] have "blocker c1 = blocker c" by auto
    with d ChallengeIncorrect ta show ?thesis by (auto simp: mayPay_def)
  qed (use o ChallengeIncorrect in auto)
next
  case WaitForBlock
  show ?thesis
  proof (cases "ev_type e")
    case BLOCK
    with o WaitForBlock have ta: "g = AssertCanBlock" "t = Block" "a = []" by auto
    with g have "ev_player e \<noteq> None" by (auto dest: assertCanBlock_Some)
    with x ta have "blocker c1 \<noteq> None" by (auto simp: setBlocker_def split: sum.splits)
    with d WaitForBlock ta show ?thesis by (auto simp: mayPay_def)
  next
    case ALLOW
    with o WaitForBlock have ta: "t = FinishAction" "a = []" by auto
    with d WaitForBlock show ?thesis by (auto simp: mayPay_def)
  qed (use o WaitForBlock in auto)
next
  case RevealOnAction
  with o show ?thesis by (cases "ev_type e") (auto simp: mayPay_def)
qed (use o in \<open>cases "ev_type e", auto\<close>)

lemma settle_pay:
  assumes "settle ru st c = Inr (st', c', acts)"
  shows "\<forall>d. (mayPay st c \<longrightarrow> d) \<longrightarrow> paidOnce d acts \<and> (mayPay st' c' \<longrightarrow> dueAfter d acts)"
proof (rule settle_induct_rule [OF assms, where
      P = "\<lambda>st c st' c' acts. \<forall>d. (mayPay st c \<longrightarrow> d) \<longrightarrow>
             paidOnce d acts \<and> (mayPay st' c' \<longrightarrow> dueAfter d acts)"])
  fix st c
  show "\<forall>d. (mayPay st c \<longrightarrow> d) \<longrightarrow> paidOnce d [] \<and> (mayPay st c \<longrightarrow> dueAfter d [])" by simp
next
  fix st c t a c1 acts1
  assume f: "firstEnabled (GameMachine_always st) c = Inr (Some (t, a))"
    and x: "execActs ru (a @ GameMachine_entry t) c nullEvent = Inr c1"
    and ih: "\<forall>d. (mayPay t c1 \<longrightarrow> d) \<longrightarrow> paidOnce d acts1 \<and> (mayPay st' c' \<longrightarrow> dueAfter d acts1)"
  show "\<forall>d. (mayPay st c \<longrightarrow> d) \<longrightarrow>
          paidOnce d (a @ GameMachine_entry t @ acts1) \<and>
          (mayPay st' c' \<longrightarrow> dueAfter d (a @ GameMachine_entry t @ acts1))"
  proof (intro allI impI)
    fix d
    assume d: "mayPay st c \<longrightarrow> d"
    from always_edge_pay [OF f x d] ih [rule_format, of "dueAfter d (a @ GameMachine_entry t)"]
    show "paidOnce d (a @ GameMachine_entry t @ acts1) \<and>
          (mayPay st' c' \<longrightarrow> dueAfter d (a @ GameMachine_entry t @ acts1))"
      using paidOnce_append [of d "a @ GameMachine_entry t" acts1]
        dueAfter_append [of d "a @ GameMachine_entry t" acts1]
      by simp
  qed
qed

lemma follow_pay:
  assumes "follow ru t a c e = Inr (st', c', acts)"
    and "paidOnce d (a @ GameMachine_entry t)"
    and "\<And>c1. execActs ru (a @ GameMachine_entry t) c e = Inr c1 \<Longrightarrow>
           mayPay t c1 \<longrightarrow> dueAfter d (a @ GameMachine_entry t)"
  shows "paidOnce d acts \<and> (mayPay st' c' \<longrightarrow> dueAfter d acts)"
proof -
  from follow_Inr [OF assms(1)] obtain c1 acts1 where
    x: "execActs ru (a @ GameMachine_entry t) c e = Inr c1" and
    s: "settle ru t c1 = Inr (st', c', acts1)" and a: "acts = a @ GameMachine_entry t @ acts1"
    by blast
  from settle_pay [OF s, rule_format, of "dueAfter d (a @ GameMachine_entry t)"] assms(2) assms(3) [OF x]
  show ?thesis
    using paidOnce_append [of d "a @ GameMachine_entry t" acts1]
      dueAfter_append [of d "a @ GameMachine_entry t" acts1] a
    by simp
qed

lemma macrostep_pay:
  assumes m: "macrostep ru s e = Inr (st', c', acts)" and d: "mayPay (st_value s) (st_context s) \<longrightarrow> d"
  shows "paidOnce d acts \<and> (mayPay st' c' \<longrightarrow> dueAfter d acts)"
  using macrostep_Inr [OF m]
proof (elim disjE exE conjE)
  assume "settle ru (st_value s) (st_context s) = Inr (st', c', acts)"
  from settle_pay [OF this] d show ?thesis by blast
next
  fix g t a
  assume o: "GameMachine_on (st_value s) (ev_type e) = Some (g, t, a)"
    and g: "evalGuard g (st_context s) e = Inr True"
    and f: "follow ru t a (st_context s) e = Inr (st', c', acts)"
  from follow_Inr [OF f] obtain c1 where x: "execActs ru (a @ GameMachine_entry t) (st_context s) e = Inr c1"
    by blast
  from on_edge_pay [OF o g x d] have p: "paidOnce d (a @ GameMachine_entry t)" by simp
  show ?thesis
  proof (rule follow_pay [OF f p])
    fix c1
    assume "execActs ru (a @ GameMachine_entry t) (st_context s) e = Inr c1"
    from on_edge_pay [OF o g this d] show "mayPay t c1 \<longrightarrow> dueAfter d (a @ GameMachine_entry t)" by simp
  qed
qed

lemma runLog_pay:
  "runLog ru s evs = Inr (s', acts) \<Longrightarrow> mayPay (st_value s) (st_context s) \<longrightarrow> d \<Longrightarrow>
   paidOnce d acts \<and> (mayPay (st_value s') (st_context s') \<longrightarrow> dueAfter d acts)"
proof (induction evs arbitrary: s d acts)
  case Nil
  then show ?case by auto
next
  case (Cons e evs)
  from Cons.prems(1) obtain st1 c1 acts1 acts2 where
    m: "macrostep ru s e = Inr (st1, c1, acts1)" and
    r: "runLog ru \<lparr>st_value = st1, st_context = c1\<rparr> evs = Inr (s', acts2)" and
    a: "acts = acts1 @ acts2"
    by (auto split: sum.splits prod.splits)
  from macrostep_pay [OF m Cons.prems(2)] have
    1: "paidOnce d acts1" "mayPay st1 c1 \<longrightarrow> dueAfter d acts1" by simp_all
  from Cons.IH [OF r, of "dueAfter d acts1"] 1(2) have
    "paidOnce (dueAfter d acts1) acts2 \<and>
     (mayPay (st_value s') (st_context s') \<longrightarrow> dueAfter (dueAfter d acts1) acts2)" by simp
  with 1 a show ?case by (simp add: paidOnce_append dueAfter_append)
qed

lemma run_runLog: "run ru s evs = Inr s' \<Longrightarrow> \<exists>acts. runLog ru s evs = Inr (s', acts)"
proof (induction evs arbitrary: s)
  case Nil
  then show ?case by simp
next
  case (Cons e evs)
  from Cons.prems obtain s1 where t: "transition ru s e = Inr s1" and r: "run ru s1 evs = Inr s'"
    by (auto split: sum.splits)
  from t obtain st1 c1 acts1 where m: "macrostep ru s e = Inr (st1, c1, acts1)"
    and s1: "s1 = \<lparr>st_value = st1, st_context = c1\<rparr>"
    by (auto simp: transition_def split: sum.splits prod.splits)
  from Cons.IH [OF r] obtain acts2 where "runLog ru s1 evs = Inr (s', acts2)" by blast
  with m s1 show ?case by simp
qed

text \<open>Where \<^verbatim>\<open>payActionCost\<close> stands in the machine, and what it does to the cash.\<close>

lemma pay_sites:
  "(PayActionCost \<in> set (GameMachine_entry t)) = (t = WaitForBlock)"
  "GameMachine_on st et = Some (g, t, a) \<Longrightarrow>
     (PayActionCost \<in> set a) = (st = WaitForResponse \<and> (et = BLOCK \<or> et = ALLOW))"
  "(g, t, a) \<in> set (GameMachine_always st) \<Longrightarrow> PayActionCost \<notin> set a"
proof -
  show "(PayActionCost \<in> set (GameMachine_entry t)) = (t = WaitForBlock)" by (cases t) auto
  show "GameMachine_on st et = Some (g, t, a) \<Longrightarrow>
     (PayActionCost \<in> set a) = (st = WaitForResponse \<and> (et = BLOCK \<or> et = ALLOW))"
    by (cases st; cases et) auto
  show "(g, t, a) \<in> set (GameMachine_always st) \<Longrightarrow> PayActionCost \<notin> set a"
    by (cases st) auto
qed

lemma payActionCost_cash:
  assumes "payActionCost c = Inr c'" and "whoseTurn c < length (players c)"
  shows "\<exists>n. getCost (currentAction c) = Inr n \<and>
    cash (players c' ! whoseTurn c) = cash (players c ! whoseTurn c) - n"
  using assms
  by (auto simp: payActionCost_def overActivePlayer_def Player_adjustCash_def split: sum.splits)

lemma paidOnce_count:
  "paidOnce d as \<Longrightarrow>
   count_list as PayActionCost \<le> count_list as SetCurrentAction + (if d then 1 else 0)"
  by (induction d as rule: paidOnce.induct) (auto split: if_splits)

text \<open>
  C2. For an action adjudicated within one turn, from the \<open>ACTION\<close> event accepted in
  \<open>StartOfTurn\<close> that sets the current action, over any events accepted after it while no
  other action is set: \<^verbatim>\<open>payActionCost\<close> runs at most once, and the cash of every
  player at the end is the cash at the start, except that the active player has paid the
  cost of the action once for each run of \<^verbatim>\<open>payActionCost\<close> (so at most once) and has
  received the gain of the action for each run of \<^verbatim>\<open>applyAction\<close>. \<^verbatim>\<open>payActionCost\<close>
  stands only on the \<open>BLOCK\<close> and \<open>ALLOW\<close> transitions out of \<open>WaitForResponse\<close> and in
  the entry of \<open>WaitForBlock\<close> (\<open>pay_sites\<close>); it runs on at most one of them for one
  action, and on none of them when the turn ends before.
\<close>

theorem pay_at_most_once:
  assumes s: "st_value s = StartOfTurn" and e: "ev_type e = ACTION"
    and r: "runLog ru s (e # evs) = Inr (s', acts)"
    and one: "count_list acts SetCurrentAction = 1"
  shows "\<exists>n. getCost (ev_action e) = Inr n \<and>
    count_list acts PayActionCost \<le> 1 \<and>
    map cash (players (st_context s')) =
      (map cash (players (st_context s)))[whoseTurn (st_context s) :=
         cash (players (st_context s) ! whoseTurn (st_context s))
         - n * int (count_list acts PayActionCost)
         + gainOf (ev_action e) * int (count_list acts ApplyAction)]"
proof -
  let ?c = "st_context s"
  let ?w = "whoseTurn ?c"
  from r obtain st1 c1 acts1 acts2 where
    m: "macrostep ru s e = Inr (st1, c1, acts1)" and
    r2: "runLog ru \<lparr>st_value = st1, st_context = c1\<rparr> evs = Inr (s', acts2)" and
    a: "acts = acts1 @ acts2"
    by (auto split: sum.splits prod.splits)
  have o: "GameMachine_on (st_value s) (ev_type e) = Some (AssertCanStartAction, WaitForResponse, [])"
    using s e by simp
  from macrostep_handler [OF o m] have g: "assertCanStartAction ?c e = Inr True"
    and f: "follow ru WaitForResponse [] ?c e = Inr (st1, c1, acts1)" by simp_all
  from assertCanStartAction_accept [OF g] obtain n where
    lt: "?w < length (players ?c)" and n: "getCost (ev_action e) = Inr n" by blast
  let ?g = "gainOf (ev_action e)"
  define c0 where "c0 = setCurrentAction ?c e"
  from follow_Inr [OF f] obtain actsS where
    st: "settle ru WaitForResponse c0 = Inr (st1, c1, actsS)" and a1: "acts1 = SetCurrentAction # actsS"
    by (auto simp: c0_def split: sum.splits)
  have c0: "whoseTurn c0 = ?w" "currentAction c0 = ev_action e" "players c0 = players ?c"
    by (simp_all add: c0_def setCurrentAction_def)
  have cn: "costOf (ev_action e) = n" using n by (simp add: costOf_def)
  note ts = settle_turn [OF st] and ns = settle_noSet [OF st]
  from ts c0 lt cn have v1: "map cash (players c1) =
      (map cash (players ?c))[?w := cash (players ?c ! ?w) + netCash n ?g actsS]" by simp
  from one a a1 ns have n2: "SetCurrentAction \<notin> set acts2"
    by (auto simp: count_list_0_iff)
  have v: "map cash (players (st_context s')) =
      (map cash (players ?c))[?w := cash (players ?c ! ?w) + netCash n ?g acts]"
  proof (cases "st1 = StartOfTurn")
    case True
    with runLog_idle [OF r2 _ n2] have "s' = \<lparr>st_value = st1, st_context = c1\<rparr>" "acts2 = []" by simp_all
    with v1 a a1 show ?thesis by simp
  next
    case False
    with ts c0 have k: "whoseTurn c1 = ?w" "currentAction c1 = ev_action e" by simp_all
    from v1 have "length (map cash (players c1)) = length (map cash (players ?c))" by simp
    with lt have lt1: "?w < length (players c1)" by simp
    from runLog_mid [OF r2 _ n2] False k lt1 cn have v2: "map cash (players (st_context s')) =
        (map cash (players c1))[?w := map cash (players c1) ! ?w + netCash n ?g acts2]" by simp
    from cash_compose [OF v1 _ v2] lt
    have "map cash (players (st_context s')) =
        (map cash (players ?c))[?w := cash (players ?c ! ?w) + (netCash n ?g actsS + netCash n ?g acts2)]"
      by simp
    with a a1 show ?thesis by (simp add: netCash_append)
  qed
  from runLog_pay [OF r, of False] s have "paidOnce False acts" by (simp add: mayPay_def)
  from paidOnce_count [OF this] one have p: "count_list acts PayActionCost \<le> 1" by simp
  have "cash (players ?c ! ?w) + netCash n ?g acts =
      cash (players ?c ! ?w) - n * int (count_list acts PayActionCost)
        + ?g * int (count_list acts ApplyAction)"
    by (simp add: netCash_count)
  with v have "map cash (players (st_context s')) =
      (map cash (players ?c))[?w := cash (players ?c ! ?w)
         - n * int (count_list acts PayActionCost) + ?g * int (count_list acts ApplyAction)]"
    by simp
  with n p show ?thesis by blast
qed

theorem pay_at_most_once_witness:
  "st_value (initialState afterDeath) = StartOfTurn \<and>
   ev_type (evAction 2 ''assassinate'' (Some 0)) = ACTION \<and>
   runLog (\<lambda>s. 0) (initialState afterDeath) [evAction 2 ''assassinate'' (Some 0), evAllow 0] =
     Inr (assassinated, [SetCurrentAction, PayActionCost, ClearRevealer, ApplyAction]) \<and>
   count_list [SetCurrentAction, PayActionCost, ClearRevealer, ApplyAction] SetCurrentAction = 1 \<and>
   getCost (Some ''assassinate'') = Inr 3 \<and>
   count_list [SetCurrentAction, PayActionCost, ClearRevealer, ApplyAction] PayActionCost = 1 \<and>
   map cash (players afterDeath) = [4, 2, 3] \<and>
   map cash (players (st_context assassinated)) = [4, 2, 0]"
proof -
  have a: "st_value (initialState afterDeath) = StartOfTurn" by (simp add: initialState_def)
  have b: "ev_type (evAction 2 ''assassinate'' (Some 0)) = ACTION" by (simp add: evAction_def)
  have l: "runLog (\<lambda>s. 0) (initialState afterDeath) [evAction 2 ''assassinate'' (Some 0), evAllow 0] =
     Inr (assassinated, [SetCurrentAction, PayActionCost, ClearRevealer, ApplyAction])"
    by (simp add: assassinated_def afterDeath_def eval_defs)
  have c: "count_list [SetCurrentAction, PayActionCost, ClearRevealer, ApplyAction] SetCurrentAction = 1"
    by simp
  have g: "getCost (Some ''assassinate'') = Inr 3" by (simp add: eval_defs)
  from pay_at_most_once [OF a b l c] a b l g show ?thesis
    by (simp add: initialState_def resetContext_def afterDeath_def exampleGame_def evAction_def gainOf_def)
qed

text \<open>
  An action that is never paid: player 2 claims the assassin with three coins, is
  challenged by player 0 and shows the duke. The turn ends, \<^verbatim>\<open>payActionCost\<close> has not
  run, and player 2 still has three coins; so \<^verbatim>\<open>payActionCost\<close> does not run on
  exactly one of its places for every action.
\<close>

theorem unpaid_action_counterexample:
  "runLog (\<lambda>s. 0) (initialState afterDeath)
     [evAction 2 ''assassinate'' (Some 0), evChallenge 0, evReveal 2 ''duke''] =
     Inr (caughtBluffing,
          [SetCurrentAction, SetChallenger, SetRevealerClaimant, RevealInfluence,
           AdvanceTurn, ResetContext]) \<and>
   count_list [SetCurrentAction, SetChallenger, SetRevealerClaimant, RevealInfluence,
     AdvanceTurn, ResetContext] PayActionCost = 0 \<and>
   getCost (Some ''assassinate'') = Inr 3 \<and>
   map cash (players afterDeath) = [4, 2, 3] \<and>
   map cash (players (st_context caughtBluffing)) = [4, 2, 3]"
  by (simp add: caughtBluffing_def afterDeath_def eval_defs)

end
